theory Spec2Isabelle
  imports Complex_Main "HOL-Library.Multiset" "HOL-Library.Sublist"
begin

section \<open>Dialog metrics of KBRD (parlai/core/metrics.py)\<close>

text \<open>
  The development embeds \<^verbatim>\<open>src/parlai/core/metrics.py\<close>: the text normalisation, the
  scorer functions, the accumulator class \<^verbatim>\<open>Metrics\<close> (\<^verbatim>\<open>__init__\<close>, \<^verbatim>\<open>update\<close>,
  \<^verbatim>\<open>update_ranking_metrics\<close>, \<^verbatim>\<open>report\<close>, \<^verbatim>\<open>clear\<close>) and \<^verbatim>\<open>aggregate_metrics\<close>.

  Conventions of the embedding.
  \<^item> Python numbers (\<^verbatim>\<open>int\<close> and \<^verbatim>\<open>float\<close>) are exact rationals (\<open>rat\<close>): sums, quotients
    and comparisons are those of the mathematical values.
  \<^item> Python strings are \<open>string\<close>; the character classes of the normalisation are
    those of the ASCII range.
  \<^item> A \<^verbatim>\<open>collections.Counter\<close> of n-grams is a multiset of token lists: its length is
    the number of distinct elements, the sum of its values is the size of the multiset,
    and \<^verbatim>\<open>+=\<close> is multiset union.
  \<^item> A raised exception is a value of type \<open>error\<close>. A statement that mutates the
    accumulator returns the state it leaves behind together with the exception it
    raised, if any, since Python keeps the mutations made before a \<^verbatim>\<open>raise\<close>.
\<close>

subsection \<open>Exceptions\<close>

datatype error = KeyError | ValueError | TypeError | AttributeError

fun bindE :: "error + 'a \<Rightarrow> ('a \<Rightarrow> error + 'b) \<Rightarrow> error + 'b" where
  "bindE (Inl e) f = Inl e"
| "bindE (Inr x) f = f x"

subsection \<open>Text normalisation: \<^verbatim>\<open>normalize_answer\<close>\<close>

text \<open>\<^verbatim>\<open>re_punc\<close>: the 32 punctuation characters of ASCII, codes 33-47, 58-64, 91-96, 123-126.\<close>

definition is_punc :: "char \<Rightarrow> bool" where
  "is_punc c = (let n = (of_char c :: nat) in
     (33 \<le> n \<and> n \<le> 47) \<or> (58 \<le> n \<and> n \<le> 64) \<or> (91 \<le> n \<and> n \<le> 96) \<or> (123 \<le> n \<and> n \<le> 126))"

text \<open>
  A character is one of the code points U+0000 to U+00FF. The characters \<^verbatim>\<open>str.split()\<close>
  splits at are the white space of Unicode: tab, newline, VT, FF, CR, FS, GS, RS, US,
  space, NEL (133) and the no-break space (160).
\<close>

definition is_space :: "char \<Rightarrow> bool" where
  "is_space c = (let n = (of_char c :: nat) in
     (9 \<le> n \<and> n \<le> 13) \<or> (28 \<le> n \<and> n \<le> 32) \<or> n = 133 \<or> n = 160)"

text \<open>
  The word characters \<^verbatim>\<open>\w\<close> of a regular expression on \<^verbatim>\<open>str\<close>: the underscore and the
  alphanumeric characters of Unicode, which in this range are the ASCII letters and
  digits, the ordinal indicators (170, 186), the micro sign (181), the superscript digits
  (178, 179, 185), the fractions (188 to 190) and the accented letters (192 to 255
  without the multiplication sign 215 and the division sign 247).
\<close>

definition is_word :: "char \<Rightarrow> bool" where
  "is_word c = (let n = (of_char c :: nat) in
     (48 \<le> n \<and> n \<le> 57) \<or> (65 \<le> n \<and> n \<le> 90) \<or> n = 95 \<or> (97 \<le> n \<and> n \<le> 122)
     \<or> n = 170 \<or> n = 178 \<or> n = 179 \<or> n = 181 \<or> n = 185 \<or> n = 186
     \<or> (188 \<le> n \<and> n \<le> 190) \<or> (192 \<le> n \<and> n \<le> 214) \<or> (216 \<le> n \<and> n \<le> 246)
     \<or> (248 \<le> n \<and> n \<le> 255))"

text \<open>
  \<^verbatim>\<open>str.lower()\<close>: the capitals are the ASCII ones and the accented ones (192 to 222 without
  the multiplication sign 215); the small letter is 32 further.
\<close>

definition lower_char :: "char \<Rightarrow> char" where
  "lower_char c = (let n = (of_char c :: nat) in
     if (65 \<le> n \<and> n \<le> 90) \<or> (192 \<le> n \<and> n \<le> 222 \<and> n \<noteq> 215) then char_of (n + 32) else c)"

definition lower :: "string \<Rightarrow> string" where
  "lower s = map lower_char s"

definition remove_punc :: "string \<Rightarrow> string" where
  "remove_punc s = map (\<lambda>c. if is_punc c then CHR '' '' else c) s"

text \<open>
  \<^verbatim>\<open>re_art.sub(' ', text)\<close> with \<^verbatim>\<open>re_art = \b(a|an|the)\b\<close>: a match starts and ends at a word
  boundary and has no boundary inside, so the matches are the maximal runs of word
  characters that spell \<^verbatim>\<open>a\<close>, \<^verbatim>\<open>an\<close> or \<^verbatim>\<open>the\<close>; each becomes one space.
\<close>

definition flush_word :: "string \<Rightarrow> string" where
  "flush_word w = (if w = ''a'' \<or> w = ''an'' \<or> w = ''the'' then '' '' else w)"

fun articles_aux :: "string \<Rightarrow> string \<Rightarrow> string" where
  "articles_aux cur [] = flush_word cur"
| "articles_aux cur (c # cs) =
     (if is_word c then articles_aux (cur @ [c]) cs
      else flush_word cur @ c # articles_aux [] cs)"

definition remove_articles :: "string \<Rightarrow> string" where
  "remove_articles s = articles_aux [] s"

text \<open>\<^verbatim>\<open>text.split()\<close>: the maximal runs of characters that are not whitespace.\<close>

fun split_aux :: "string \<Rightarrow> string \<Rightarrow> string list" where
  "split_aux cur [] = (if cur = [] then [] else [cur])"
| "split_aux cur (c # cs) =
     (if is_space c then (if cur = [] then split_aux [] cs else cur # split_aux [] cs)
      else split_aux (cur @ [c]) cs)"

definition split :: "string \<Rightarrow> string list" where
  "split s = split_aux [] s"

text \<open>\<^verbatim>\<open>text.split(" ")\<close>: the pieces between single spaces, empty pieces included.\<close>

fun split_on_aux :: "char \<Rightarrow> string \<Rightarrow> string \<Rightarrow> string list" where
  "split_on_aux sep cur [] = [cur]"
| "split_on_aux sep cur (c # cs) =
     (if c = sep then cur # split_on_aux sep [] cs else split_on_aux sep (cur @ [c]) cs)"

definition split_sp :: "string \<Rightarrow> string list" where
  "split_sp s = split_on_aux (CHR '' '') [] s"

fun join :: "string \<Rightarrow> string list \<Rightarrow> string" where
  "join sep [] = []"
| "join sep [w] = w"
| "join sep (w # v # ws) = w @ sep @ join sep (v # ws)"

definition white_space_fix :: "string \<Rightarrow> string" where
  "white_space_fix s = join '' '' (split s)"

definition normalize_answer :: "string \<Rightarrow> string" where
  "normalize_answer s = white_space_fix (remove_articles (remove_punc (lower s)))"

subsection \<open>Scorer functions\<close>

definition exact_match :: "string option \<Rightarrow> string list option \<Rightarrow> bool" where
  "exact_match guess answers =
     (case (guess, answers) of
        (Some g, Some as) \<Rightarrow> list_ex (\<lambda>a. normalize_answer g = normalize_answer a) as
      | _ \<Rightarrow> False)"

text \<open>\<^verbatim>\<open>Counter(gold_items) & Counter(pred_items)\<close> is the intersection of the two multisets.\<close>

definition prec_recall_f1_score :: "string list \<Rightarrow> string list \<Rightarrow> rat \<times> rat \<times> rat" where
  "prec_recall_f1_score pred_items gold_items =
     (let num_same = size (mset gold_items \<inter># mset pred_items) in
      if num_same = 0 then (0, 0, 0)
      else let precision = of_nat num_same / of_nat (length pred_items);
               recall = of_nat num_same / of_nat (length gold_items);
               f1 = (2 * precision * recall) / (precision + recall)
           in (precision, recall, f1))"

text \<open>\<^verbatim>\<open>max\<close> of a sequence raises \<^verbatim>\<open>ValueError\<close> when the sequence is empty.\<close>

fun py_max :: "rat list \<Rightarrow> error + rat" where
  "py_max [] = Inl ValueError"
| "py_max (x # xs) = Inr (fold max xs x)"

definition f1_score :: "string option \<Rightarrow> string list option \<Rightarrow> error + rat" where
  "f1_score guess answers =
     (case (guess, answers) of
        (Some g, Some as) \<Rightarrow>
          (let g_tokens = split (normalize_answer g);
               scores = map (\<lambda>a. prec_recall_f1_score g_tokens (split (normalize_answer a))) as
           in py_max (map (\<lambda>(p, r, f1). f1) scores))
      | _ \<Rightarrow> Inr 0)"

text \<open>
  The two optional libraries. \<open>nltkbleu\<close> is \<open>None\<close> when the import of
  \<^verbatim>\<open>nltk.translate.bleu_score\<close> failed, and otherwise holds \<^verbatim>\<open>sentence_bleu\<close> with the
  smoothing function of the source fixed, as a function of the references, the
  hypothesis and the weights. \<open>rouge\<close> is \<open>None\<close> when the import of \<^verbatim>\<open>rouge\<close> failed,
  and otherwise holds \<^verbatim>\<open>Rouge(metrics=['rouge-n', 'rouge-l'], max_n=2).get_scores\<close>, read
  at the measure \<^verbatim>\<open>'r'\<close>: the result is the triple for rouge-1, rouge-2 and rouge-l, and
  \<open>None\<close> stands for a raised \<^verbatim>\<open>LookupError\<close>.
\<close>

record env =
  nltkbleu :: "(string list list \<Rightarrow> string list \<Rightarrow> rat list \<Rightarrow> rat) option"
  rouge :: "(string \<Rightarrow> string \<Rightarrow> (rat \<times> rat \<times> rat) option) option"

definition bleu :: "env \<Rightarrow> string \<Rightarrow> string list \<Rightarrow> nat \<Rightarrow> rat option" where
  "bleu E guess answers k =
     (case nltkbleu E of
        None \<Rightarrow> None
      | Some sentence_bleu \<Rightarrow>
          Some (sentence_bleu (map (\<lambda>a. split_sp (normalize_answer a)) answers)
                  (split_sp (normalize_answer guess))
                  (replicate k (1 / of_nat k))))"

text \<open>
  \<^verbatim>\<open>_rouge\<close>, called only where \<^verbatim>\<open>rouge is not None\<close>, so the evaluator is an argument.
  A \<^verbatim>\<open>LookupError\<close> of any call gives the list of five \<^verbatim>\<open>None\<close>; otherwise the three
  maxima, each of which raises \<^verbatim>\<open>ValueError\<close> on an empty list of answers.
\<close>

definition rouge_scores ::
  "(string \<Rightarrow> string \<Rightarrow> (rat \<times> rat \<times> rat) option) \<Rightarrow> string \<Rightarrow> string list
     \<Rightarrow> error + rat option list" where
  "rouge_scores get_scores guess answers =
     (let scores = map (\<lambda>a. get_scores (normalize_answer guess) (normalize_answer a)) answers in
      if list_ex (\<lambda>s. s = None) scores then Inr [None, None, None, None, None]
      else
        bindE (py_max (map (\<lambda>s. fst (the s)) scores)) (\<lambda>scores_rouge1.
        bindE (py_max (map (\<lambda>s. fst (snd (the s))) scores)) (\<lambda>scores_rouge2.
        bindE (py_max (map (\<lambda>s. snd (snd (the s))) scores)) (\<lambda>scores_rougeL.
        Inr [Some scores_rouge1, Some scores_rouge2, Some scores_rougeL]))))"

text \<open>\<^verbatim>\<open>_ngram\<close>: the slices \<^verbatim>\<open>seq[i : i + n]\<close> for \<^verbatim>\<open>i\<close> in \<^verbatim>\<open>range(len(seq) - n + 1)\<close>.\<close>

definition ngram :: "'a list \<Rightarrow> nat \<Rightarrow> 'a list list" where
  "ngram seq n = map (\<lambda>i. take n (drop i seq)) [0 ..< length seq + 1 - n]"

definition intra_distinct :: "string \<Rightarrow> nat \<Rightarrow> rat" where
  "intra_distinct guess n =
     (let tokens = split (normalize_answer guess);
          counts = mset (ngram tokens n)
      in max (of_nat (card (set_mset counts))) (1 / 10 ^ 12) / max (of_nat (size counts)) (1 / 10 ^ 5))"

definition inter_distinct :: "string \<Rightarrow> nat \<Rightarrow> string list multiset" where
  "inter_distinct guess n = mset (ngram (split (normalize_answer guess)) n)"

subsection \<open>The accumulator\<close>

text \<open>
  A value of the table \<^verbatim>\<open>self.metrics\<close> is a number or a \<^verbatim>\<open>Counter\<close>. The record holds the
  attributes of a \<^verbatim>\<open>Metrics\<close> object: the table, \<^verbatim>\<open>metrics_list\<close>, the two entries of
  \<^verbatim>\<open>self.flags\<close>, and \<open>shared\<close>, which says that \<^verbatim>\<open>type(self.metrics) is SharedTable\<close>.
  \<^verbatim>\<open>crs_metrics\<close> and \<^verbatim>\<open>eval_pr\<close> are never assigned after construction and are constants.
\<close>

datatype val = Num rat | Counter "string list multiset"

record Metrics =
  metrics :: "string \<rightharpoonup> val"
  metrics_list :: "string list"
  has_text_cands :: bool
  print_prediction_metrics :: bool
  shared :: bool

definition crs_metrics :: "string list" where
  "crs_metrics = [''bleu'', ''rouge'', ''intra-distinct'', ''inter-distinct'']"

definition eval_pr :: "nat list" where
  "eval_pr = [1, 5, 10, 100]"

text \<open>\<^verbatim>\<open>str(k)\<close> of a natural number: its decimal digits.\<close>

fun str :: "nat \<Rightarrow> string" where
  "str n = (if n < 10 then [char_of (48 + n)] else str (n div 10) @ [char_of (48 + n mod 10)])"

declare str.simps [simp del]

definition startswith :: "string \<Rightarrow> string \<Rightarrow> bool" where
  "startswith k p = prefix p k"

text \<open>\<^verbatim>\<open>any(k.startswith(prefix) for prefix in self.crs_metrics)\<close>\<close>

definition is_crs :: "string \<Rightarrow> bool" where
  "is_crs k = list_ex (\<lambda>p. startswith k p) crs_metrics"

subsection \<open>Statements\<close>

text \<open>
  A statement takes the accumulator and returns it as the statement leaves it, with the
  exception raised, if any. \<open>seq\<close> is sequential composition: an exception of the first
  statement ends the run, with the state reached so far.
\<close>

type_synonym stmt = "Metrics \<Rightarrow> Metrics \<times> error option"

definition skip :: stmt where
  "skip s = (s, None)"

definition raise :: "error \<Rightarrow> stmt" where
  "raise e s = (s, Some e)"

definition seq :: "stmt \<Rightarrow> stmt \<Rightarrow> stmt" where
  "seq f g s = (case f s of (s', None) \<Rightarrow> g s' | (s', Some e) \<Rightarrow> (s', Some e))"

fun seqs :: "stmt list \<Rightarrow> stmt" where
  "seqs [] = skip"
| "seqs (f # fs) = seq f (seqs fs)"

definition for_each :: "'a list \<Rightarrow> ('a \<Rightarrow> stmt) \<Rightarrow> stmt" where
  "for_each xs body = seqs (map body xs)"

text \<open>An expression that may raise, evaluated before the statement that uses its value.\<close>

definition eval_then :: "error + 'a \<Rightarrow> ('a \<Rightarrow> stmt) \<Rightarrow> stmt" where
  "eval_then r f s = (case r of Inl e \<Rightarrow> (s, Some e) | Inr x \<Rightarrow> f x s)"

text \<open>
  \<^verbatim>\<open>with self._lock():\<close> holds the table's lock (or \<^verbatim>\<open>no_lock()\<close>) for the block. It changes
  nothing of what the block computes; an exception leaves the block with the mutations
  made so far.
\<close>

definition with_lock :: "stmt \<Rightarrow> stmt" where
  "with_lock f = f"

text \<open>\<^verbatim>\<open>self.metrics[k]\<close> raises \<^verbatim>\<open>KeyError\<close> on a missing key.\<close>

definition lookup :: "Metrics \<Rightarrow> string \<Rightarrow> error + val" where
  "lookup s k = (case metrics s k of None \<Rightarrow> Inl KeyError | Some v \<Rightarrow> Inr v)"

text \<open>\<^verbatim>\<open>self.metrics[k] = v\<close>\<close>

definition setitem :: "string \<Rightarrow> val \<Rightarrow> stmt" where
  "setitem k v s = (s\<lparr>metrics := (metrics s)(k \<mapsto> v)\<rparr>, None)"

text \<open>
  \<^verbatim>\<open>self.metrics[k] += x\<close> for a number \<open>x\<close>. On a \<^verbatim>\<open>Counter\<close>, \<^verbatim>\<open>Counter.__iadd__\<close> calls
  \<^verbatim>\<open>x.items()\<close>, which raises \<^verbatim>\<open>AttributeError\<close>.
\<close>

definition iadd :: "string \<Rightarrow> rat \<Rightarrow> stmt" where
  "iadd k x s =
     (case metrics s k of
        None \<Rightarrow> (s, Some KeyError)
      | Some (Num a) \<Rightarrow> (s\<lparr>metrics := (metrics s)(k \<mapsto> Num (a + x))\<rparr>, None)
      | Some (Counter c) \<Rightarrow> (s, Some AttributeError))"

text \<open>\<^verbatim>\<open>self.metrics[k] += x\<close> where \<open>x\<close> may be \<^verbatim>\<open>None\<close> (a score of \<^verbatim>\<open>_rouge\<close>).\<close>

definition iadd_opt :: "string \<Rightarrow> rat option \<Rightarrow> stmt" where
  "iadd_opt k x s =
     (case x of
        Some y \<Rightarrow> iadd k y s
      | None \<Rightarrow>
          (case metrics s k of
             None \<Rightarrow> (s, Some KeyError)
           | Some (Num a) \<Rightarrow> (s, Some TypeError)
           | Some (Counter c) \<Rightarrow> (s, Some AttributeError)))"

text \<open>\<^verbatim>\<open>self.metrics[k] += c\<close> for a \<^verbatim>\<open>Counter\<close> \<open>c\<close>; a number does not add to a \<^verbatim>\<open>Counter\<close>.\<close>

definition iadd_counter :: "string \<Rightarrow> string list multiset \<Rightarrow> stmt" where
  "iadd_counter k c s =
     (case metrics s k of
        None \<Rightarrow> (s, Some KeyError)
      | Some (Num a) \<Rightarrow> (s, Some TypeError)
      | Some (Counter a) \<Rightarrow> (s\<lparr>metrics := (metrics s)(k \<mapsto> Counter (a + c))\<rparr>, None))"

subsection \<open>\<^verbatim>\<open>Metrics.__init__\<close>\<close>

definition initial_metrics_list :: "env \<Rightarrow> string list" where
  "initial_metrics_list E =
     [''mean_rank'', ''loss'', ''correct'', ''f1'', ''ppl'']
     @ (if nltkbleu E \<noteq> None then map (\<lambda>i. ''bleu-'' @ str i) [1 ..< 5] else [])
     @ (if rouge E \<noteq> None then [''rouge-1'', ''rouge-2'', ''rouge-l''] else [])
     @ concat (map (\<lambda>i. [''intra-distinct-'' @ str i, ''inter-distinct-'' @ str i]) [1 ..< 5])"

text \<open>The body of the loop over \<^verbatim>\<open>self.metrics_list\<close> in the constructor.\<close>

definition init_key :: "string \<Rightarrow> (string \<rightharpoonup> val) \<Rightarrow> (string \<rightharpoonup> val)" where
  "init_key k m =
     (let m1 = (if \<not> startswith k ''inter-distinct'' then m(k \<mapsto> Num 0) else m(k \<mapsto> Counter {#}))
      in if \<not> is_crs k then m1(k @ ''_cnt'' \<mapsto> Num 0) else m1)"

definition init_crs_cnt :: "string \<Rightarrow> (string \<rightharpoonup> val) \<Rightarrow> (string \<rightharpoonup> val)" where
  "init_crs_cnt crs_metric m =
     (if crs_metric \<noteq> ''inter-distinct'' then m(crs_metric @ ''_cnt'' \<mapsto> Num 0) else m)"

definition init_hits :: "nat \<Rightarrow> (string \<rightharpoonup> val) \<Rightarrow> (string \<rightharpoonup> val)" where
  "init_hits k m = m(''hits@'' @ str k \<mapsto> Num 0)"

text \<open>\<open>opt\<close> is the option dictionary; only \<^verbatim>\<open>opt.get('numthreads', 1)\<close> is read.\<close>

definition init :: "env \<Rightarrow> (string \<rightharpoonup> int) \<Rightarrow> Metrics" where
  "init E opt =
     (let ml = initial_metrics_list E;
          m0 = Map.empty(''cnt'' \<mapsto> Num 0);
          m1 = fold init_key ml m0;
          m2 = fold init_crs_cnt crs_metrics m1;
          m3 = fold init_hits eval_pr m2;
          m4 = m3(''hits@_cnt'' \<mapsto> Num 0)
      in \<lparr>metrics = m4, metrics_list = ml, has_text_cands = False,
          print_prediction_metrics = False,
          shared = ((case opt ''numthreads'' of None \<Rightarrow> 1 | Some n \<Rightarrow> n) > 1)\<rparr>)"

subsection \<open>\<^verbatim>\<open>Metrics.update\<close>\<close>

text \<open>
  An observation: \<^verbatim>\<open>observation.get('text', None)\<close>, \<^verbatim>\<open>observation.get('text_candidates', None)\<close>
  and the items of \<^verbatim>\<open>observation['metrics']\<close> in the dictionary's order, \<open>None\<close> when
  \<^verbatim>\<open>'metrics' not in observation\<close>.
\<close>

record observation =
  obs_text :: "string option"
  text_candidates :: "string list option"
  obs_metrics :: "(string \<times> rat) list option"

text \<open>Lines 277-278.\<close>

definition update_cnt :: stmt where
  "update_cnt = with_lock (iadd ''cnt'' 1)"

text \<open>Lines 284-289: the exact match and the first locked block.\<close>

definition correct_of :: "string option \<Rightarrow> string list \<Rightarrow> rat" where
  "correct_of prediction labels =
     (case prediction of
        None \<Rightarrow> 0
      | Some p \<Rightarrow> if exact_match (Some p) (Some labels) then 1 else 0)"

definition set_print_prediction_metrics :: stmt where
  "set_print_prediction_metrics s = (s\<lparr>print_prediction_metrics := True\<rparr>, None)"

definition update_correct :: "string \<Rightarrow> string list \<Rightarrow> stmt" where
  "update_correct prediction labels =
     with_lock (seqs [set_print_prediction_metrics,
                      iadd ''correct'' (correct_of (Some prediction) labels),
                      iadd ''correct_cnt'' 1])"

text \<open>Lines 296-299.\<close>

definition update_bleu :: "env \<Rightarrow> string \<Rightarrow> string list \<Rightarrow> stmt" where
  "update_bleu E prediction labels =
     (if nltkbleu E \<noteq> None then
        seq (for_each [1 ..< 5] (\<lambda>i. iadd_opt (''bleu-'' @ str i) (bleu E prediction labels i)))
            (iadd ''bleu_cnt'' 1)
      else skip)"

text \<open>Lines 300-305.\<close>

definition update_rouge :: "env \<Rightarrow> string \<Rightarrow> string list \<Rightarrow> stmt" where
  "update_rouge E prediction labels =
     (case rouge E of
        None \<Rightarrow> skip
      | Some get_scores \<Rightarrow>
          eval_then (rouge_scores get_scores prediction labels) (\<lambda>scores.
            seqs [iadd_opt ''rouge-1'' (scores ! 0),
                  iadd_opt ''rouge-2'' (scores ! 1),
                  iadd_opt ''rouge-l'' (scores ! 2),
                  iadd ''rouge_cnt'' 1]))"

text \<open>Lines 306-309.\<close>

definition update_distinct :: "string \<Rightarrow> stmt" where
  "update_distinct prediction =
     seq (for_each [1 ..< 5] (\<lambda>i.
            seq (iadd (''intra-distinct-'' @ str i) (intra_distinct prediction i))
                (iadd_counter (''inter-distinct-'' @ str i) (inter_distinct prediction i))))
         (iadd ''intra-distinct_cnt'' 1)"

text \<open>Lines 292-309: \<^verbatim>\<open>_f1_score\<close> is evaluated before the second locked block is entered.\<close>

definition update_scores :: "env \<Rightarrow> string \<Rightarrow> string list \<Rightarrow> stmt" where
  "update_scores E prediction labels =
     eval_then (f1_score (Some prediction) (Some labels)) (\<lambda>f1.
       with_lock (seqs [iadd ''f1'' f1,
                        iadd ''f1_cnt'' 1,
                        update_bleu E prediction labels,
                        update_rouge E prediction labels,
                        update_distinct prediction]))"

definition update_text :: "env \<Rightarrow> observation \<Rightarrow> string list \<Rightarrow> stmt" where
  "update_text E obs labels =
     (case obs_text obs of
        None \<Rightarrow> skip
      | Some prediction \<Rightarrow> seq (update_correct prediction labels) (update_scores E prediction labels))"

text \<open>
  \<^verbatim>\<open>update_ranking_metrics\<close>. The loop over the candidates keeps the rank \<open>cnt\<close> and the
  dictionary \<open>cnts\<close> over the keys of \<^verbatim>\<open>eval_pr\<close>.
\<close>

fun count_hits :: "string set \<Rightarrow> string list \<Rightarrow> nat \<Rightarrow> (nat \<Rightarrow> nat) \<Rightarrow> (nat \<Rightarrow> nat)" where
  "count_hits label_set [] cnt cnts = cnts"
| "count_hits label_set (c # cs) cnt cnts =
     (let cnt' = cnt + 1;
          cnts' = (if normalize_answer c \<in> label_set
                   then fold (\<lambda>k m. if cnt' \<le> k then m(k := m k + 1) else m) eval_pr cnts
                   else cnts)
      in count_hits label_set cs cnt' cnts')"

definition set_has_text_cands :: stmt where
  "set_has_text_cands s = (s\<lparr>has_text_cands := True\<rparr>, None)"

definition update_ranking_metrics :: "observation \<Rightarrow> string list \<Rightarrow> stmt" where
  "update_ranking_metrics obs labels =
     (case text_candidates obs of
        None \<Rightarrow> skip
      | Some text_cands \<Rightarrow>
          (let label_set = set (map normalize_answer labels);
               cnts = count_hits label_set text_cands 0 (\<lambda>k. 0)
           in with_lock (seqs [set_has_text_cands,
                               for_each eval_pr (\<lambda>k. if cnts k > 0 then iadd (''hits@'' @ str k) 1 else skip),
                               iadd ''hits@_cnt'' 1])))"

text \<open>Lines 316-333: one item of the user-reported metrics.\<close>

definition register :: "string \<Rightarrow> rat \<Rightarrow> stmt" where
  "register k v s =
     (s\<lparr>metrics := (metrics s)(k \<mapsto> Num v, k @ ''_cnt'' \<mapsto> Num 1),
        metrics_list := metrics_list s @ [k]\<rparr>, None)"

definition user_metric :: "string \<times> rat \<Rightarrow> stmt" where
  "user_metric kv s =
     (case kv of (k, v) \<Rightarrow>
        if k \<notin> set [''correct'', ''f1'', ''hits@k'', ''bleu''] then
          if k \<in> set (metrics_list s) then with_lock (seq (iadd k v) (iadd (k @ ''_cnt'') 1)) s
          else if shared s then (s, None)
          else if metrics s k = None then register k v s
          else iadd k v s
        else (s, None))"

definition update_user :: "observation \<Rightarrow> stmt" where
  "update_user obs =
     (case obs_metrics obs of
        None \<Rightarrow> skip
      | Some items \<Rightarrow> for_each items user_metric)"

definition update_stmt :: "env \<Rightarrow> observation \<Rightarrow> string list \<Rightarrow> stmt" where
  "update_stmt E obs labels =
     seqs [update_cnt, update_text E obs labels, update_ranking_metrics obs labels, update_user obs]"

text \<open>
  \<^verbatim>\<open>update\<close> returns the dictionary \<^verbatim>\<open>{'correct': correct}\<close>, or raises; either way the
  accumulator is left as the statements made it.
\<close>

definition update :: "env \<Rightarrow> observation \<Rightarrow> string list \<Rightarrow> Metrics \<Rightarrow> Metrics \<times> (error + (string \<rightharpoonup> rat))" where
  "update E obs labels s =
     (case update_stmt E obs labels s of
        (s', None) \<Rightarrow> (s', Inr (Map.empty(''correct'' \<mapsto> correct_of (obs_text obs) labels)))
      | (s', Some e) \<Rightarrow> (s', Inl e))"

subsection \<open>\<^verbatim>\<open>Metrics.clear\<close>\<close>

text \<open>The body of the loop over \<^verbatim>\<open>self.metrics_list\<close>; no value of the table is a tensor.\<close>

definition clear_key :: "string \<Rightarrow> stmt" where
  "clear_key k s =
     (case metrics s k of
        None \<Rightarrow> (s, Some KeyError)
      | Some v \<Rightarrow>
          seq (if startswith k ''inter-distinct'' then setitem k (Counter {#}) else setitem k (Num 0))
              (if \<not> is_crs k then setitem (k @ ''_cnt'') (Num 0) else skip) s)"

definition clear :: stmt where
  "clear s =
     with_lock (seqs [setitem ''cnt'' (Num 0),
                      for_each (metrics_list s) clear_key,
                      for_each crs_metrics (\<lambda>crs_metric.
                        if crs_metric \<noteq> ''inter-distinct'' then setitem (crs_metric @ ''_cnt'') (Num 0)
                        else skip),
                      for_each eval_pr (\<lambda>k. setitem (''hits@'' @ str k) (Num 0)),
                      setitem ''hits@_cnt'' (Num 0)]) s"

subsection \<open>\<^verbatim>\<open>round_sigfigs\<close>\<close>

text \<open>
  Modelled from the spec: \<^verbatim>\<open>round_sigfigs\<close> of \<^verbatim>\<open>parlai.core.utils\<close>, which is imported by
  the module and is not among the sources. The spec calls it rounding to a fixed number
  of significant figures. Here the value is rounded at the decimal position that leaves
  \<open>sigfigs\<close> significant digits, a tie going to the even neighbour as Python's \<^verbatim>\<open>round\<close>
  does; zero stays zero.
\<close>

definition round_half_even :: "rat \<Rightarrow> int" where
  "round_half_even x =
     (let f = \<lfloor>x\<rfloor>; r = x - of_int f
      in if r < 1 / 2 then f else if 1 / 2 < r then f + 1 else if even f then f else f + 1)"

definition pow10 :: "int \<Rightarrow> rat" where
  "pow10 e = (if 0 \<le> e then 10 ^ nat e else 1 / 10 ^ nat (- e))"

text \<open>The decimal exponent of a positive number: \<open>exp_up\<close> from 1 upwards, \<open>exp_down\<close> below 1.\<close>

fun exp_up :: "nat \<Rightarrow> rat \<Rightarrow> nat" where
  "exp_up 0 x = 0"
| "exp_up (Suc fuel) x = (if 10 \<le> x then Suc (exp_up fuel (x / 10)) else 0)"

fun exp_down :: "nat \<Rightarrow> rat \<Rightarrow> nat" where
  "exp_down 0 x = 0"
| "exp_down (Suc fuel) x = (if x < 1 then Suc (exp_down fuel (x * 10)) else 0)"

definition decimal_exponent :: "rat \<Rightarrow> int" where
  "decimal_exponent x =
     (if 1 \<le> x then int (exp_up (nat \<lfloor>x\<rfloor>) x)
      else - int (exp_down (nat (snd (quotient_of x))) x))"

definition round_sigfigs :: "rat \<Rightarrow> nat \<Rightarrow> rat" where
  "round_sigfigs x sigfigs =
     (if x = 0 then 0
      else let d = int sigfigs - 1 - decimal_exponent \<bar>x\<bar>
           in of_int (round_half_even (x * pow10 d)) / pow10 d)"

subsection \<open>Arithmetic on the numbers of the table\<close>

text \<open>
  The numbers of the table and of the reports are Python numbers. The quotients of
  \<^verbatim>\<open>report\<close> and the sums and quotients of \<^verbatim>\<open>aggregate_metrics\<close> (\<^verbatim>\<open>sums[k] += mt[k]\<close>,
  \<^verbatim>\<open>total += mt['exs']\<close>, \<^verbatim>\<open>sums[k] / num_tasks\<close>) are Python's \<^verbatim>\<open>+\<close> and \<^verbatim>\<open>/\<close>: exact on
  integers for \<^verbatim>\<open>+\<close>, and on floats the exact result rounded to a double. \<open>fadd\<close> and \<open>fdiv\<close>
  are these two operations on the values at hand. They are parameters of the functions,
  and nothing is assumed of how they round.
\<close>

record arith =
  fadd :: "rat \<Rightarrow> rat \<Rightarrow> rat"
  fdiv :: "rat \<Rightarrow> rat \<Rightarrow> rat"

subsection \<open>\<^verbatim>\<open>Metrics.report\<close>\<close>

text \<open>A number as an operand of \<^verbatim>\<open>max\<close>, \<^verbatim>\<open>/\<close> or \<^verbatim>\<open>>\<close>; a \<^verbatim>\<open>Counter\<close> there raises \<^verbatim>\<open>TypeError\<close>.\<close>

definition num_of :: "val \<Rightarrow> error + rat" where
  "num_of v = (case v of Num a \<Rightarrow> Inr a | Counter c \<Rightarrow> Inl TypeError)"

text \<open>\<^verbatim>\<open>self.metrics[k] / max(1, self.metrics[ck])\<close>\<close>

definition ratio :: "arith \<Rightarrow> Metrics \<Rightarrow> string \<Rightarrow> string \<Rightarrow> error + rat" where
  "ratio A s k ck =
     bindE (lookup s k) (\<lambda>v.
     bindE (lookup s ck) (\<lambda>c.
     bindE (num_of c) (\<lambda>cn.
     bindE (num_of v) (\<lambda>vn. Inr (fdiv A vn (max 1 cn))))))"

text \<open>\<^verbatim>\<open>k.rsplit('-', 1)[0]\<close>: the part before the last hyphen, or all of \<open>k\<close> without one.\<close>

definition rsplit_head :: "string \<Rightarrow> string" where
  "rsplit_head k =
     (if CHR ''-'' \<in> set k then rev (tl (dropWhile (\<lambda>c. c \<noteq> CHR ''-'') (rev k))) else k)"

definition cnt_key :: "string \<Rightarrow> string" where
  "cnt_key k = rsplit_head k @ ''_cnt''"

definition report_accuracy :: "arith \<Rightarrow> Metrics \<Rightarrow> (string \<rightharpoonup> rat) \<Rightarrow> error + (string \<rightharpoonup> rat)" where
  "report_accuracy A s m =
     (if print_prediction_metrics s then
        bindE (ratio A s ''correct'' ''correct_cnt'') (\<lambda>a.
        bindE (ratio A s ''f1'' ''f1_cnt'') (\<lambda>f.
        Inr (m(''accuracy'' \<mapsto> round_sigfigs a 4, ''f1'' \<mapsto> round_sigfigs f 4))))
      else Inr m)"

fun foldE :: "('a \<Rightarrow> 'b \<Rightarrow> error + 'b) \<Rightarrow> 'a list \<Rightarrow> 'b \<Rightarrow> error + 'b" where
  "foldE f [] a = Inr a"
| "foldE f (x # xs) a = bindE (f x a) (foldE f xs)"

definition report_hits_key :: "arith \<Rightarrow> Metrics \<Rightarrow> nat \<Rightarrow> (string \<rightharpoonup> rat) \<Rightarrow> error + (string \<rightharpoonup> rat)" where
  "report_hits_key A s k m =
     bindE (ratio A s (''hits@'' @ str k) ''hits@_cnt'') (\<lambda>h.
     Inr (m(''hits@'' @ str k \<mapsto> round_sigfigs h 3)))"

definition report_hits :: "arith \<Rightarrow> Metrics \<Rightarrow> (string \<rightharpoonup> rat) \<Rightarrow> error + (string \<rightharpoonup> rat)" where
  "report_hits A s m = (if has_text_cands s then foldE (report_hits_key A s) eval_pr m else Inr m)"

text \<open>Lines 365-374: the body of the loop over \<^verbatim>\<open>self.metrics_list\<close>.\<close>

definition report_key :: "arith \<Rightarrow> Metrics \<Rightarrow> string \<Rightarrow> (string \<rightharpoonup> rat) \<Rightarrow> error + (string \<rightharpoonup> rat)" where
  "report_key A s k m =
     (if \<not> startswith k ''inter-distinct'' then
        bindE (lookup s (cnt_key k)) (\<lambda>c.
        bindE (num_of c) (\<lambda>cn.
        if 0 < cn \<and> k \<noteq> ''correct'' \<and> k \<noteq> ''f1'' then
          bindE (ratio A s k (cnt_key k)) (\<lambda>r. Inr (m(k \<mapsto> round_sigfigs r 4)))
        else Inr m))
      else
        bindE (lookup s k) (\<lambda>v.
        case v of
          Num a \<Rightarrow> Inl TypeError
        | Counter c \<Rightarrow>
            if card (set_mset c) \<noteq> 0 then
              Inr (m(k \<mapsto> round_sigfigs
                     (fdiv A (max (of_nat (card (set_mset c))) (1 / 10 ^ 12))
                             (max (of_nat (size c)) (1 / 10 ^ 5))) 4))
            else Inr m))"

definition report :: "arith \<Rightarrow> Metrics \<Rightarrow> error + (string \<rightharpoonup> rat)" where
  "report A s =
     bindE (lookup s ''cnt'') (\<lambda>t.
     bindE (num_of t) (\<lambda>total.
     let m = Map.empty(''exs'' \<mapsto> total) in
     if 0 < total then
       bindE (report_accuracy A s m) (\<lambda>m1.
       bindE (report_hits A s m1) (\<lambda>m2.
       foldE (report_key A s) (metrics_list s) m2))
     else Inr m))"

subsection \<open>\<^verbatim>\<open>aggregate_metrics\<close>\<close>

text \<open>
  A reporter is given by what \<^verbatim>\<open>getID()\<close> and \<^verbatim>\<open>report()\<close> return. The result \<open>m\<close> has the
  dictionary of the tasks, in insertion order, and the numeric entries.
\<close>

type_synonym reporter = "string \<times> (string \<rightharpoonup> rat)"

record aggregate =
  tasks :: "(string \<times> (string \<rightharpoonup> rat)) list"
  entries :: "string \<rightharpoonup> rat"

text \<open>The keys of the dictionary \<^verbatim>\<open>sums\<close> (here \<open>sums_d\<close>), in the order of \<^verbatim>\<open>sums.keys()\<close>.\<close>

definition sums_keys :: "env \<Rightarrow> string list" where
  "sums_keys E = [''accuracy'', ''f1'', ''loss'', ''ppl''] @ (if nltkbleu E \<noteq> None then [''bleu''] else [])"

text \<open>\<^verbatim>\<open>while tid in m['tasks']: tid += '_'\<close>\<close>

function fresh_tid :: "string list \<Rightarrow> string \<Rightarrow> string" where
  "fresh_tid ks tid = (if tid \<in> set ks then fresh_tid ks (tid @ ''_'') else tid)"
  by pat_completeness auto
termination
proof (relation "measure (\<lambda>(ks, tid). Suc (fold max (map length ks) 0) - length tid)")
  show "wf (measure (\<lambda>(ks, tid). Suc (fold max (map length ks) 0) - length tid))"
    by simp
next
  fix ks :: "string list" and tid :: string
  assume mem: "tid \<in> set ks"
  have bound: "length x \<le> fold max (map length xs) a" if "x \<in> set xs" for x :: string and xs a
    using that
  proof (induction xs arbitrary: a)
    case Nil
    then show ?case by simp
  next
    case (Cons y ys)
    have mono: "a \<le> fold max (map length zs) a" for zs :: "string list" and a
      by (induction zs arbitrary: a) (auto intro: order_trans [OF max.cobounded2])
    from Cons show ?case
      by (auto intro: order_trans [OF max.cobounded1 mono])
  qed
  from bound [OF mem, of 0] have "length tid \<le> fold max (map length ks) 0" .
  then show "((ks, tid @ ''_''), (ks, tid)) \<in> measure (\<lambda>(ks, tid). Suc (fold max (map length ks) 0) - length tid)"
    by simp
qed

text \<open>The inner loop over \<^verbatim>\<open>sums.keys()\<close> for one report \<open>mt\<close>.\<close>

definition add_sums ::
  "arith \<Rightarrow> env \<Rightarrow> (string \<rightharpoonup> rat) \<Rightarrow> (string \<Rightarrow> rat) \<times> bool \<Rightarrow> (string \<Rightarrow> rat) \<times> bool" where
  "add_sums A E mt acc =
     fold (\<lambda>k acc.
             case acc of (sums_d, found_any) \<Rightarrow>
               (case mt k of
                  Some v \<Rightarrow> (sums_d(k := fadd A (sums_d k) v), True)
                | None \<Rightarrow> (sums_d, found_any)))
          (sums_keys E) acc"

text \<open>The body of the loop over the reporters; \<^verbatim>\<open>mt['exs']\<close> raises \<^verbatim>\<open>KeyError\<close> when missing.\<close>

record agg_state =
  agg_tasks :: "(string \<times> (string \<rightharpoonup> rat)) list"
  total :: rat
  sums_d :: "string \<Rightarrow> rat"
  num_tasks :: nat

definition agg_step :: "arith \<Rightarrow> env \<Rightarrow> reporter \<Rightarrow> agg_state \<Rightarrow> error + agg_state" where
  "agg_step A E r a =
     (case r of (tid0, mt) \<Rightarrow>
        let tid = fresh_tid (map fst (agg_tasks a)) tid0;
            tasks' = agg_tasks a @ [(tid, mt)]
        in case mt ''exs'' of
             None \<Rightarrow> Inl KeyError
           | Some exs \<Rightarrow>
               (case add_sums A E mt (sums_d a, False) of
                  (sums_d', found_any) \<Rightarrow>
                    Inr \<lparr>agg_tasks = tasks', total = fadd A (total a) exs, sums_d = sums_d',
                         num_tasks = (if found_any then num_tasks a + 1 else num_tasks a)\<rparr>))"

definition aggregate_metrics :: "arith \<Rightarrow> env \<Rightarrow> reporter list \<Rightarrow> error + aggregate" where
  "aggregate_metrics A E reporters =
     bindE (foldE (agg_step A E) reporters
              \<lparr>agg_tasks = [], total = 0, sums_d = (\<lambda>k. 0), num_tasks = 0\<rparr>) (\<lambda>a.
     let m0 = Map.empty(''exs'' \<mapsto> total a, ''accuracy'' \<mapsto> 0);
         m1 = (if 0 < num_tasks a
               then fold (\<lambda>k m. m(k \<mapsto> round_sigfigs (fdiv A (sums_d a k) (of_nat (num_tasks a))) 4))
                      (sums_keys E) m0
               else m0)
     in Inr \<lparr>tasks = agg_tasks a, entries = m1\<rparr>)"

section \<open>Auxiliary notions\<close>

text \<open>A statement preserves a predicate of the accumulator, whether it returns or raises.\<close>

definition pres :: "(Metrics \<Rightarrow> bool) \<Rightarrow> stmt \<Rightarrow> bool" where
  "pres P f = (\<forall>s. P s \<longrightarrow> P (fst (f s)))"

text \<open>The example counter \<^verbatim>\<open>cnt\<close> is the number zero.\<close>

definition zero_state :: "Metrics \<Rightarrow> bool" where
  "zero_state s = (metrics s ''cnt'' = Some (Num 0))"

text \<open>
  For the aggregation: the sum that the loop over the reporters builds at a key, from the
  left and with the addition of the code, a report without the key adding nothing; and
  the reports that contain at least one of the headline keys.
\<close>

definition key_sum_from :: "arith \<Rightarrow> string \<Rightarrow> reporter list \<Rightarrow> rat \<Rightarrow> rat" where
  "key_sum_from A k rs x =
     fold (\<lambda>r acc. case snd r k of Some v \<Rightarrow> fadd A acc v | None \<Rightarrow> acc) rs x"

definition key_sum :: "arith \<Rightarrow> string \<Rightarrow> reporter list \<Rightarrow> rat" where
  "key_sum A k rs = key_sum_from A k rs 0"

definition reports_any :: "env \<Rightarrow> reporter \<Rightarrow> bool" where
  "reports_any E r = list_ex (\<lambda>k. snd r k \<noteq> None) (sums_keys E)"

definition reporting_tasks :: "env \<Rightarrow> reporter list \<Rightarrow> nat" where
  "reporting_tasks E rs = length (filter (reports_any E) rs)"

text \<open>A statement changes the table at most at the keys of \<open>K\<close>, whether it returns or raises.\<close>

definition frame :: "string set \<Rightarrow> stmt \<Rightarrow> bool" where
  "frame K f = (\<forall>s k. k \<notin> K \<longrightarrow> metrics (fst (f s)) k = metrics s k)"

text \<open>The keys that the text part of \<^verbatim>\<open>update\<close> writes, and those of the ranking part.\<close>

definition text_keys :: "string set" where
  "text_keys = {''correct'', ''correct_cnt'', ''f1'', ''f1_cnt'',
     ''bleu-1'', ''bleu-2'', ''bleu-3'', ''bleu-4'', ''bleu_cnt'',
     ''rouge-1'', ''rouge-2'', ''rouge-l'', ''rouge_cnt'',
     ''intra-distinct-1'', ''intra-distinct-2'', ''intra-distinct-3'', ''intra-distinct-4'',
     ''inter-distinct-1'', ''inter-distinct-2'', ''inter-distinct-3'', ''inter-distinct-4'',
     ''intra-distinct_cnt''}"

definition hits_keys :: "string set" where
  "hits_keys = {''hits@1'', ''hits@5'', ''hits@10'', ''hits@100'', ''hits@_cnt''}"

text \<open>
  The chain of the hit accumulators: all five are numbers, in increasing order from
  \<^verbatim>\<open>hits@1\<close> to \<^verbatim>\<open>hits@_cnt\<close>.
\<close>

definition hits_chain :: "Metrics \<Rightarrow> bool" where
  "hits_chain s =
     (case (metrics s ''hits@1'', metrics s ''hits@5'', metrics s ''hits@10'',
            metrics s ''hits@100'', metrics s ''hits@_cnt'') of
        (Some (Num a), Some (Num b), Some (Num c), Some (Num d), Some (Num e)) \<Rightarrow>
          a \<le> b \<and> b \<le> c \<and> c \<le> d \<and> d \<le> e
      | _ \<Rightarrow> False)"

text \<open>
  A sequence of calls on one accumulator. A call that raises leaves the accumulator as it
  was when the exception was raised, and the next call goes on from there.
\<close>

datatype call = Update observation "string list" | Clear

fun step :: "env \<Rightarrow> call \<Rightarrow> Metrics \<Rightarrow> Metrics" where
  "step E (Update obs labels) s = fst (update E obs labels s)"
| "step E Clear s = fst (clear s)"

definition run :: "env \<Rightarrow> call list \<Rightarrow> Metrics \<Rightarrow> Metrics" where
  "run E calls s = fold (step E) calls s"

text \<open>The keys of the metrics that an observation supplies.\<close>

definition user_keys :: "observation \<Rightarrow> string list" where
  "user_keys obs = (case obs_metrics obs of None \<Rightarrow> [] | Some items \<Rightarrow> map fst items)"

text \<open>No key of \<^verbatim>\<open>metrics_list\<close> is a hit accumulator or has one as its counter.\<close>

definition list_ok :: "Metrics \<Rightarrow> bool" where
  "list_ok s = list_all (\<lambda>k. k \<notin> hits_keys \<and> k @ ''_cnt'' \<notin> hits_keys) (metrics_list s)"

text \<open>
  Some candidate among the first \<open>K\<close> is, after normalisation, one of the normalised
  labels.
\<close>

definition hit_at :: "nat \<Rightarrow> string list \<Rightarrow> string list \<Rightarrow> bool" where
  "hit_at K cands labels =
     list_ex (\<lambda>c. normalize_answer c \<in> set (map normalize_answer labels)) (take K cands)"

text \<open>
  The keys that the second block of the text part writes: all of \<open>text_keys\<close> but
  \<^verbatim>\<open>correct\<close> and \<^verbatim>\<open>correct_cnt\<close>.
\<close>

definition score_keys :: "string set" where
  "score_keys = {''f1'', ''f1_cnt'',
     ''bleu-1'', ''bleu-2'', ''bleu-3'', ''bleu-4'', ''bleu_cnt'',
     ''rouge-1'', ''rouge-2'', ''rouge-l'', ''rouge_cnt'',
     ''intra-distinct-1'', ''intra-distinct-2'', ''intra-distinct-3'', ''intra-distinct-4'',
     ''inter-distinct-1'', ''inter-distinct-2'', ''inter-distinct-3'', ''inter-distinct-4'',
     ''intra-distinct_cnt''}"

text \<open>
  The keys of the table that the metrics supplied by an observation can write: a key
  outside the reserved list, and that key followed by \<^verbatim>\<open>_cnt\<close>.
\<close>

definition written_keys :: "observation \<Rightarrow> string list" where
  "written_keys obs =
     concat (map (\<lambda>k. if k \<in> set [''correct'', ''f1'', ''hits@k'', ''bleu''] then [] else [k, k @ ''_cnt''])
                 (user_keys obs))"

text \<open>A call is an update whose observation has a prediction text.\<close>

definition has_text :: "call \<Rightarrow> bool" where
  "has_text c = (case c of Update obs labels \<Rightarrow> obs_text obs \<noteq> None | Clear \<Rightarrow> False)"

section \<open>Properties\<close>

subsection \<open>Statements\<close>

lemma range_1_5: "[1 ..< 5] = [1, 2, 3, 4::nat]"
  by (simp add: upt_rec)

lemma str_digits:
  "str 1 = ''1''" "str 2 = ''2''" "str 3 = ''3''" "str 4 = ''4''" "str 5 = ''5''"
  "str 10 = ''10''" "str 100 = ''100''" "str (Suc 0) = ''1''"
  by code_simp+

lemma presD: "pres P f \<Longrightarrow> P s \<Longrightarrow> P (fst (f s))"
  unfolding pres_def by blast

lemma pres_skip: "pres P skip"
  unfolding pres_def skip_def by simp

lemma pres_raise: "pres P (raise e)"
  unfolding pres_def raise_def by simp

lemma pres_seq:
  assumes f: "pres P f" and g: "pres P g"
  shows "pres P (seq f g)"
  unfolding pres_def
proof (intro allI impI)
  fix s
  assume P: "P s"
  obtain s' r where fs: "f s = (s', r)"
    by (cases "f s")
  from presD [OF f P] fs have P': "P s'"
    by simp
  show "P (fst (seq f g s))"
  proof (cases r)
    case None
    with fs have "seq f g s = g s'"
      by (simp add: seq_def)
    with presD [OF g P'] show ?thesis
      by simp
  next
    case (Some e)
    with fs have "seq f g s = (s', Some e)"
      by (simp add: seq_def)
    with P' show ?thesis
      by simp
  qed
qed

lemma pres_seqs: "(\<And>f. f \<in> set fs \<Longrightarrow> pres P f) \<Longrightarrow> pres P (seqs fs)"
  by (induction fs) (simp_all add: pres_skip pres_seq)

lemma pres_for_each: "(\<And>x. x \<in> set xs \<Longrightarrow> pres P (body x)) \<Longrightarrow> pres P (for_each xs body)"
  unfolding for_each_def by (rule pres_seqs) auto

lemma pres_eval_then: "(\<And>x. pres P (f x)) \<Longrightarrow> pres P (eval_then r f)"
  unfolding pres_def eval_then_def by (cases r) simp_all

lemma pres_with_lock: "pres P f \<Longrightarrow> pres P (with_lock f)"
  unfolding with_lock_def .

lemma fold_keep: "(\<And>x m. x \<in> set xs \<Longrightarrow> f x m k = m k) \<Longrightarrow> fold f xs m k = m k"
  by (induction xs arbitrary: m) simp_all

lemma append_cnt_neq: "x @ ''_cnt'' \<noteq> ''cnt''"
proof
  assume "x @ ''_cnt'' = ''cnt''"
  then have "length (x @ ''_cnt'') = length ''cnt''"
    by (rule arg_cong)
  then show False
    by simp
qed

lemma initial_metrics_list_cnt: "x \<in> set (initial_metrics_list E) \<Longrightarrow> x \<noteq> ''cnt''"
  by (auto simp: initial_metrics_list_def range_1_5)

lemma init_key_cnt: "x \<in> set (initial_metrics_list E) \<Longrightarrow> init_key x m ''cnt'' = m ''cnt''"
  using append_cnt_neq [of x] initial_metrics_list_cnt [of x E]
  by (auto simp: init_key_def Let_def)

lemma init_crs_cnt_cnt: "init_crs_cnt x m ''cnt'' = m ''cnt''"
  using append_cnt_neq [of x] by (auto simp: init_crs_cnt_def)

lemma init_hits_cnt: "init_hits n m ''cnt'' = m ''cnt''"
  by (simp add: init_hits_def)

lemma zero_state_init: "zero_state (init E opt)"
  unfolding zero_state_def init_def Let_def
  by (simp add: fold_keep init_key_cnt init_crs_cnt_cnt init_hits_cnt)

lemma pres_clear_key: "pres zero_state (clear_key k)"
proof -
  have a: "pres zero_state (if startswith k ''inter-distinct'' then setitem k (Counter {#}) else setitem k (Num 0))"
    by (auto simp: pres_def setitem_def zero_state_def startswith_def)
  have b: "pres zero_state (if \<not> is_crs k then setitem (k @ ''_cnt'') (Num 0) else skip)"
    by (auto simp: pres_def setitem_def skip_def zero_state_def)
  show ?thesis
    unfolding pres_def clear_key_def using presD [OF pres_seq [OF a b]]
    by (auto split: option.splits)
qed

lemma pres_setitem_zero: "pres zero_state (setitem k (Num 0))"
  by (auto simp: pres_def setitem_def zero_state_def)

lemma zero_state_clear: "zero_state (fst (clear s))"
proof -
  define G where "G = seqs [for_each (metrics_list s) clear_key,
                      for_each crs_metrics (\<lambda>crs_metric.
                        if crs_metric \<noteq> ''inter-distinct'' then setitem (crs_metric @ ''_cnt'') (Num 0)
                        else skip),
                      for_each eval_pr (\<lambda>k. setitem (''hits@'' @ str k) (Num 0)),
                      setitem ''hits@_cnt'' (Num 0)]"
  define s1 where "s1 = s\<lparr>metrics := (metrics s)(''cnt'' \<mapsto> Num 0)\<rparr>"
  have G: "pres zero_state G"
    unfolding G_def
    by (intro pres_seqs) (auto intro!: pres_for_each pres_clear_key pres_setitem_zero pres_skip)
  have s1: "zero_state s1"
    by (simp add: s1_def zero_state_def)
  have "clear s = seq (setitem ''cnt'' (Num 0)) G s"
    by (simp add: clear_def with_lock_def G_def)
  also have "\<dots> = G s1"
    by (simp add: seq_def setitem_def s1_def)
  finally show ?thesis
    using presD [OF G s1] by simp
qed

lemma report_zero_state: "zero_state s \<Longrightarrow> report A s = Inr (Map.empty(''exs'' \<mapsto> 0))"
  by (simp add: zero_state_def report_def lookup_def num_of_def)

text \<open>
  C7: \<^verbatim>\<open>report()\<close> on a freshly constructed accumulator, and on the accumulator that
  \<^verbatim>\<open>clear()\<close> leaves behind whatever state it was called on, returns exactly the mapping
  \<^verbatim>\<open>{'exs': 0}\<close>.
\<close>

theorem report_fresh_or_cleared:
  "report A (init E opt) = Inr (Map.empty(''exs'' \<mapsto> 0))
   \<and> report A (fst (clear s)) = Inr (Map.empty(''exs'' \<mapsto> 0))"
  by (simp add: report_zero_state zero_state_init zero_state_clear)

subsection \<open>Construction and the first statements of an update\<close>

lemma seq_None_iff: "seq f g s = (s', None) \<longleftrightarrow> (\<exists>s1. f s = (s1, None) \<and> g s1 = (s', None))"
  unfolding seq_def by (cases "f s") (auto split: option.splits)

lemma seq_ok: "f s = (s1, None) \<Longrightarrow> seq f g s = g s1"
  by (simp add: seq_def)

lemma seq_raise: "f s = (s1, Some e) \<Longrightarrow> seq f g s = (s1, Some e)"
  by (simp add: seq_def)

lemma iadd_num: "metrics s k = Some (Num a) \<Longrightarrow> iadd k v s = (s\<lparr>metrics := (metrics s)(k \<mapsto> Num (a + v))\<rparr>, None)"
  by (simp add: iadd_def)

lemma init_table_list: "metrics_list (init E opt) = initial_metrics_list E"
  by (simp add: init_def Let_def)

lemma fold_pres: "(\<And>y m. Q m \<Longrightarrow> Q (f y m)) \<Longrightarrow> Q m \<Longrightarrow> Q (fold f xs m)"
  by (induction xs arbitrary: m) simp_all

lemma fold_establish:
  assumes "x \<in> set xs" and est: "\<And>m. Q (f x m)" and pres: "\<And>y m. Q m \<Longrightarrow> Q (f y m)"
  shows "Q (fold f xs m)"
  using assms(1)
proof (induction xs arbitrary: m)
  case Nil
  then show ?case by simp
next
  case (Cons y ys)
  show ?case
  proof (cases "x = y")
    case True
    have "Q (f y m)"
      using est True by simp
    with pres have "Q (fold f ys (f y m))"
      by (rule fold_pres [where Q = Q and f = f])
    then show ?thesis by simp
  next
    case False
    with Cons.prems have "x \<in> set ys" by simp
    from Cons.IH [OF this] show ?thesis by simp
  qed
qed

lemma init_key_zero: "\<not> startswith k ''inter-distinct'' \<Longrightarrow> m k = Some (Num 0) \<Longrightarrow> init_key x m k = Some (Num 0)"
  by (auto simp: init_key_def Let_def)

lemma init_key_sets: "\<not> startswith x ''inter-distinct'' \<Longrightarrow> init_key x m x = Some (Num 0)"
  by (auto simp: init_key_def Let_def)

lemma init_key_sets_cnt: "\<not> is_crs x \<Longrightarrow> init_key x m (x @ ''_cnt'') = Some (Num 0)"
  by (auto simp: init_key_def Let_def)

lemma init_crs_cnt_zero: "m k = Some (Num 0) \<Longrightarrow> init_crs_cnt x m k = Some (Num 0)"
  by (auto simp: init_crs_cnt_def)

lemma init_hits_zero: "m k = Some (Num 0) \<Longrightarrow> init_hits n m k = Some (Num 0)"
  by (auto simp: init_hits_def)

lemma init_zero_from_list:
  assumes "fold init_key (initial_metrics_list E) (Map.empty(''cnt'' \<mapsto> Num 0)) k = Some (Num 0)"
  shows "metrics (init E opt) k = Some (Num 0)"
proof -
  let ?Q = "\<lambda>m. m k = Some (Num 0)"
  let ?m1 = "fold init_key (initial_metrics_list E) (Map.empty(''cnt'' \<mapsto> Num 0))"
  have "?Q (fold init_crs_cnt crs_metrics ?m1)"
    using init_crs_cnt_zero assms by (rule fold_pres [where Q = ?Q and f = init_crs_cnt])
  with init_hits_zero have "?Q (fold init_hits eval_pr (fold init_crs_cnt crs_metrics ?m1))"
    by (rule fold_pres [where Q = ?Q and f = init_hits])
  then show ?thesis
    by (simp add: init_def Let_def)
qed

lemma init_zero_key:
  assumes x: "x \<in> set (initial_metrics_list E)" and n: "\<not> startswith x ''inter-distinct''"
  shows "metrics (init E opt) x = Some (Num 0)"
proof (rule init_zero_from_list)
  show "fold init_key (initial_metrics_list E) (Map.empty(''cnt'' \<mapsto> Num 0)) x = Some (Num 0)"
    using x init_key_sets [OF n] init_key_zero [OF n]
    by (rule fold_establish [where Q = "\<lambda>m. m x = Some (Num 0)" and f = init_key])
qed

lemma init_zero_key_cnt:
  assumes x: "x \<in> set (initial_metrics_list E)" and c: "\<not> is_crs x"
    and n: "\<not> startswith (x @ ''_cnt'') ''inter-distinct''"
  shows "metrics (init E opt) (x @ ''_cnt'') = Some (Num 0)"
proof (rule init_zero_from_list)
  show "fold init_key (initial_metrics_list E) (Map.empty(''cnt'' \<mapsto> Num 0)) (x @ ''_cnt'') = Some (Num 0)"
    using x init_key_sets_cnt [OF c] init_key_zero [OF n]
    by (rule fold_establish [where Q = "\<lambda>m. m (x @ ''_cnt'') = Some (Num 0)" and f = init_key])
qed

lemma init_zero_hits:
  assumes "n \<in> set eval_pr"
  shows "metrics (init E opt) (''hits@'' @ str n) = Some (Num 0)"
proof -
  have "fold init_hits eval_pr m (''hits@'' @ str n) = Some (Num 0)" for m
    by (rule fold_establish [where Q = "\<lambda>m. m (''hits@'' @ str n) = Some (Num 0)", OF assms])
       (simp_all add: init_hits_def)
  then show ?thesis
    by (simp add: init_def Let_def)
qed

lemma init_table:
  "metrics (init E opt) ''cnt'' = Some (Num 0)"
  "metrics (init E opt) ''correct'' = Some (Num 0)"
  "metrics (init E opt) ''correct_cnt'' = Some (Num 0)"
  "metrics (init E opt) ''f1'' = Some (Num 0)"
  "metrics (init E opt) ''f1_cnt'' = Some (Num 0)"
  "metrics (init E opt) ''hits@1'' = Some (Num 0)"
  "metrics (init E opt) ''hits@5'' = Some (Num 0)"
  "metrics (init E opt) ''hits@10'' = Some (Num 0)"
  "metrics (init E opt) ''hits@100'' = Some (Num 0)"
  "metrics (init E opt) ''hits@_cnt'' = Some (Num 0)"
proof -
  show "metrics (init E opt) ''cnt'' = Some (Num 0)"
    using zero_state_init [of E opt] by (simp add: zero_state_def)
  have c: "''correct'' \<in> set (initial_metrics_list E)" and f: "''f1'' \<in> set (initial_metrics_list E)"
    by (simp_all add: initial_metrics_list_def)
  have nc: "\<not> is_crs ''correct''" "\<not> is_crs ''f1''"
    by (simp_all add: is_crs_def crs_metrics_def startswith_def)
  show "metrics (init E opt) ''correct'' = Some (Num 0)"
    by (rule init_zero_key [OF c]) (simp add: startswith_def)
  show "metrics (init E opt) ''f1'' = Some (Num 0)"
    by (rule init_zero_key [OF f]) (simp add: startswith_def)
  from init_zero_key_cnt [OF c nc(1)] show "metrics (init E opt) ''correct_cnt'' = Some (Num 0)"
    by (simp add: startswith_def)
  from init_zero_key_cnt [OF f nc(2)] show "metrics (init E opt) ''f1_cnt'' = Some (Num 0)"
    by (simp add: startswith_def)
  from init_zero_hits [of 1 E opt] show "metrics (init E opt) ''hits@1'' = Some (Num 0)"
    by (simp add: eval_pr_def str_digits)
  from init_zero_hits [of 5 E opt] show "metrics (init E opt) ''hits@5'' = Some (Num 0)"
    by (simp add: eval_pr_def str_digits)
  from init_zero_hits [of 10 E opt] show "metrics (init E opt) ''hits@10'' = Some (Num 0)"
    by (simp add: eval_pr_def str_digits)
  from init_zero_hits [of 100 E opt] show "metrics (init E opt) ''hits@100'' = Some (Num 0)"
    by (simp add: eval_pr_def str_digits)
  show "metrics (init E opt) ''hits@_cnt'' = Some (Num 0)"
    by (simp add: init_def Let_def)
qed

lemma f1_score_empty: "f1_score (Some t) (Some []) = Inl ValueError"
  by (simp add: f1_score_def)

lemma update_scores_empty: "update_scores E t [] s = (s, Some ValueError)"
  by (simp add: update_scores_def eval_then_def f1_score_empty)

lemma update_text_empty: "snd (update_text E (obs\<lparr>obs_text := Some t\<rparr>) [] s) \<noteq> None"
proof -
  obtain s1 r where c: "update_correct t [] s = (s1, r)"
    by (cases "update_correct t [] s")
  show ?thesis
    by (cases r) (simp_all add: update_text_def seq_def c update_scores_empty)
qed

lemma snd_seq_None: "snd (seq f g s) = None \<Longrightarrow> snd (f s) = None \<and> snd (g (fst (f s))) = None"
  unfolding seq_def by (cases "f s") (auto split: option.splits)

lemma update_stmt_empty: "snd (update_stmt E (obs\<lparr>obs_text := Some t\<rparr>) [] s) \<noteq> None"
proof
  assume "snd (update_stmt E (obs\<lparr>obs_text := Some t\<rparr>) [] s) = None"
  then have "snd (seq (update_text E (obs\<lparr>obs_text := Some t\<rparr>) [])
                   (seqs [update_ranking_metrics (obs\<lparr>obs_text := Some t\<rparr>) [], update_user (obs\<lparr>obs_text := Some t\<rparr>)])
                   (fst (update_cnt s))) = None"
    unfolding update_stmt_def seqs.simps by (rule snd_seq_None [THEN conjunct2])
  then have "snd (update_text E (obs\<lparr>obs_text := Some t\<rparr>) [] (fst (update_cnt s))) = None"
    by (rule snd_seq_None [THEN conjunct1])
  with update_text_empty show False
    by blast
qed

text \<open>
  C4: an observation with a prediction text and an empty list of labels. The claim is
  that \<^verbatim>\<open>update()\<close> returns normally. In the code \<^verbatim>\<open>_f1_score\<close> takes \<^verbatim>\<open>max\<close> of an empty
  sequence: from no state at all does such an \<^verbatim>\<open>update()\<close> return normally, and on a fresh
  accumulator the exception is \<^verbatim>\<open>ValueError\<close>.
\<close>

theorem update_empty_labels_raises:
  "(\<forall>m. snd (update E (obs\<lparr>obs_text := Some t\<rparr>) [] s) \<noteq> Inr m)
   \<and> snd (update E (obs\<lparr>obs_text := Some t\<rparr>) [] (init E opt)) = Inl ValueError"
proof
  obtain s' r where u: "update_stmt E (obs\<lparr>obs_text := Some t\<rparr>) [] s = (s', r)"
    by (cases "update_stmt E (obs\<lparr>obs_text := Some t\<rparr>) [] s")
  with update_stmt_empty [where E = E and obs = obs and t = t and s = s] obtain e where "r = Some e"
    by (cases r) simp_all
  with u show "\<forall>m. snd (update E (obs\<lparr>obs_text := Some t\<rparr>) [] s) \<noteq> Inr m"
    by (simp add: update_def)
next
  define s1 where "s1 = (init E opt)\<lparr>metrics := (metrics (init E opt))(''cnt'' \<mapsto> Num (0 + 1))\<rparr>"
  define s2 where "s2 = s1\<lparr>print_prediction_metrics := True\<rparr>"
  define s3 where "s3 = s2\<lparr>metrics := (metrics s2)(''correct'' \<mapsto> Num (0 + correct_of (Some t) []))\<rparr>"
  define s4 where "s4 = s3\<lparr>metrics := (metrics s3)(''correct_cnt'' \<mapsto> Num (0 + 1))\<rparr>"
  have 1: "update_cnt (init E opt) = (s1, None)"
    by (simp add: update_cnt_def with_lock_def iadd_num [OF init_table(1)] s1_def)
  have "metrics s2 ''correct'' = Some (Num 0)"
    by (simp add: s2_def s1_def init_table)
  then have c: "iadd ''correct'' (correct_of (Some t) []) s2 = (s3, None)"
    by (simp add: iadd_num s3_def)
  have "metrics s3 ''correct_cnt'' = Some (Num 0)"
    by (simp add: s3_def s2_def s1_def init_table)
  then have d: "iadd ''correct_cnt'' 1 s3 = (s4, None)"
    by (simp add: iadd_num s4_def)
  have 2: "update_correct t [] s1 = (s4, None)"
    by (simp add: update_correct_def with_lock_def set_print_prediction_metrics_def seq_def
        s2_def [symmetric] c d skip_def)
  have "update_text E (obs\<lparr>obs_text := Some t\<rparr>) [] s1 = (s4, Some ValueError)"
    using 2 by (simp add: update_text_def seq_def update_scores_empty)
  with 1 have "update_stmt E (obs\<lparr>obs_text := Some t\<rparr>) [] (init E opt) = (s4, Some ValueError)"
    by (simp add: update_stmt_def seq_def)
  then show "snd (update E (obs\<lparr>obs_text := Some t\<rparr>) [] (init E opt)) = Inl ValueError"
    by (simp add: update_def)
qed

subsection \<open>\<^verbatim>\<open>aggregate_metrics\<close>\<close>

lemma fold_add_sums:
  fixes mt :: "string \<rightharpoonup> rat" and A :: arith
  defines "F \<equiv> (\<lambda>k acc. case acc of (d, found_any) \<Rightarrow>
               (case mt k of Some v \<Rightarrow> (d(k := fadd A (d k) v), True) | None \<Rightarrow> (d, found_any)))"
  assumes "distinct ks"
  shows "fold F ks (sd, b)
   = (\<lambda>k. if k \<in> set ks then (case mt k of Some v \<Rightarrow> fadd A (sd k) v | None \<Rightarrow> sd k) else sd k,
      b \<or> list_ex (\<lambda>k. mt k \<noteq> None) ks)"
  using assms(2)
proof (induction ks arbitrary: sd b)
  case Nil
  then show ?case by simp
next
  case (Cons k ks)
  then have d: "distinct ks" and nk: "k \<notin> set ks"
    by simp_all
  show ?case
  proof (cases "mt k")
    case None
    then have "fold F (k # ks) (sd, b) = fold F ks (sd, b)"
      by (simp add: F_def)
    also note Cons.IH [OF d]
    also have "(\<lambda>k. if k \<in> set ks then (case mt k of Some v \<Rightarrow> fadd A (sd k) v | None \<Rightarrow> sd k) else sd k,
                b \<or> list_ex (\<lambda>k. mt k \<noteq> None) ks)
       = (\<lambda>k'. if k' \<in> set (k # ks) then (case mt k' of Some v \<Rightarrow> fadd A (sd k') v | None \<Rightarrow> sd k') else sd k',
          b \<or> list_ex (\<lambda>k. mt k \<noteq> None) (k # ks))"
      using None by (auto simp: fun_eq_iff split: option.splits)
    finally show ?thesis .
  next
    case (Some v)
    then have "fold F (k # ks) (sd, b) = fold F ks (sd(k := fadd A (sd k) v), True)"
      by (simp add: F_def)
    also note Cons.IH [OF d]
    also have "(\<lambda>k'. if k' \<in> set ks
                     then (case mt k' of Some w \<Rightarrow> fadd A ((sd(k := fadd A (sd k) v)) k') w
                           | None \<Rightarrow> (sd(k := fadd A (sd k) v)) k')
                     else (sd(k := fadd A (sd k) v)) k',
                True \<or> list_ex (\<lambda>k. mt k \<noteq> None) ks)
       = (\<lambda>k'. if k' \<in> set (k # ks) then (case mt k' of Some v \<Rightarrow> fadd A (sd k') v | None \<Rightarrow> sd k') else sd k',
          b \<or> list_ex (\<lambda>k. mt k \<noteq> None) (k # ks))"
      using Some nk by (auto simp: fun_eq_iff split: option.splits)
    finally show ?thesis .
  qed
qed

lemma distinct_sums_keys: "distinct (sums_keys E)"
  by (simp add: sums_keys_def)

lemma add_sums_eq:
  "add_sums A E mt (sd, False)
   = (\<lambda>k. if k \<in> set (sums_keys E) then (case mt k of Some v \<Rightarrow> fadd A (sd k) v | None \<Rightarrow> sd k) else sd k,
      reports_any E (tid, mt))"
  unfolding add_sums_def reports_any_def
  using fold_add_sums [OF distinct_sums_keys [of E], where mt = mt and sd = sd and b = False and A = A]
  by simp

lemma agg_step_eq:
  assumes "snd r ''exs'' = Some exs"
  shows "agg_step A E r a = Inr \<lparr>agg_tasks = agg_tasks a @ [(fresh_tid (map fst (agg_tasks a)) (fst r), snd r)],
             total = fadd A (total a) exs,
             sums_d = (\<lambda>k. if k \<in> set (sums_keys E)
                            then (case snd r k of Some v \<Rightarrow> fadd A (sums_d a k) v | None \<Rightarrow> sums_d a k)
                            else sums_d a k),
             num_tasks = (if reports_any E r then num_tasks a + 1 else num_tasks a)\<rparr>"
proof -
  obtain tid mt where r: "r = (tid, mt)"
    by (cases r)
  from assms r have e: "mt ''exs'' = Some exs"
    by simp
  show ?thesis
    unfolding r agg_step_def snd_conv fst_conv
    by (simp add: Let_def e add_sums_eq [where tid = tid])
qed

lemma foldE_agg_step:
  assumes "\<forall>r \<in> set rs. snd r ''exs'' \<noteq> None"
  shows "\<exists>a. foldE (agg_step A E) rs a0 = Inr a
             \<and> total a = key_sum_from A ''exs'' rs (total a0)
             \<and> (\<forall>k. sums_d a k = (if k \<in> set (sums_keys E) then key_sum_from A k rs (sums_d a0 k) else sums_d a0 k))
             \<and> num_tasks a = num_tasks a0 + reporting_tasks E rs"
  using assms
proof (induction rs arbitrary: a0)
  case Nil
  then show ?case
    by (simp add: key_sum_from_def reporting_tasks_def)
next
  case (Cons r rs)
  then obtain exs where r: "snd r ''exs'' = Some exs" and rs: "\<forall>r \<in> set rs. snd r ''exs'' \<noteq> None"
    by auto
  define a1 where "a1 = \<lparr>agg_tasks = agg_tasks a0 @ [(fresh_tid (map fst (agg_tasks a0)) (fst r), snd r)],
             total = fadd A (total a0) exs,
             sums_d = (\<lambda>k. if k \<in> set (sums_keys E)
                            then (case snd r k of Some v \<Rightarrow> fadd A (sums_d a0 k) v | None \<Rightarrow> sums_d a0 k)
                            else sums_d a0 k),
             num_tasks = (if reports_any E r then num_tasks a0 + 1 else num_tasks a0)\<rparr>"
  have step: "agg_step A E r a0 = Inr a1"
    unfolding a1_def by (rule agg_step_eq [OF r])
  from Cons.IH [OF rs, of a1] obtain a where a: "foldE (agg_step A E) rs a1 = Inr a"
    "total a = key_sum_from A ''exs'' rs (total a1)"
    "\<forall>k. sums_d a k = (if k \<in> set (sums_keys E) then key_sum_from A k rs (sums_d a1 k) else sums_d a1 k)"
    "num_tasks a = num_tasks a1 + reporting_tasks E rs"
    by blast
  have "foldE (agg_step A E) (r # rs) a0 = Inr a"
    by (simp add: step a(1))
  moreover have "total a = key_sum_from A ''exs'' (r # rs) (total a0)"
    by (simp add: a(2) a1_def key_sum_from_def r)
  moreover have "\<forall>k. sums_d a k = (if k \<in> set (sums_keys E) then key_sum_from A k (r # rs) (sums_d a0 k) else sums_d a0 k)"
    by (simp add: a(3) a1_def key_sum_from_def)
  moreover have "num_tasks a = num_tasks a0 + reporting_tasks E (r # rs)"
    by (simp add: a(4) a1_def reporting_tasks_def)
  ultimately show ?case
    by blast
qed

lemma fold_upd_lookup:
  "fold (\<lambda>k m. m(k \<mapsto> f k)) ks m0 x = (if x \<in> set ks then Some (f x) else m0 x)"
  by (induction ks arbitrary: m0) auto

lemma aggregate_metrics_eq:
  assumes "\<forall>r \<in> set rs. snd r ''exs'' \<noteq> None"
  shows "\<exists>a. aggregate_metrics A E rs = Inr a
           \<and> entries a ''exs'' = Some (key_sum A ''exs'' rs)
           \<and> (if 0 < reporting_tasks E rs
                then \<forall>k \<in> set (sums_keys E).
                       entries a k
                       = Some (round_sigfigs (fdiv A (key_sum A k rs) (of_nat (reporting_tasks E rs))) 4)
                else entries a = Map.empty(''exs'' \<mapsto> key_sum A ''exs'' rs, ''accuracy'' \<mapsto> 0))"
proof -
  define a0 where "a0 = \<lparr>agg_tasks = [], total = 0, sums_d = (\<lambda>k. 0), num_tasks = 0\<rparr>"
  from foldE_agg_step [OF assms, of A E a0] obtain a where a: "foldE (agg_step A E) rs a0 = Inr a"
    "total a = key_sum A ''exs'' rs"
    "\<And>k. k \<in> set (sums_keys E) \<Longrightarrow> sums_d a k = key_sum A k rs"
    "num_tasks a = reporting_tasks E rs"
    by (auto simp: a0_def key_sum_def)
  have e: "''exs'' \<notin> set (sums_keys E)"
    by (simp add: sums_keys_def)
  show ?thesis
    unfolding aggregate_metrics_def a0_def [symmetric]
    by (simp add: a Let_def fold_upd_lookup e)
qed

text \<open>
  C3: \<^verbatim>\<open>aggregate_metrics\<close> on reporters that all have \<^verbatim>\<open>exs\<close> returns, at \<^verbatim>\<open>exs\<close>, the sum of
  the \<^verbatim>\<open>exs\<close> of all reports. When some report contains a headline key, the result has
  every headline key, and the value there is the sum of the values reported at that key
  divided by the number of reports that contain any headline key at all, rounded to four
  significant figures. When no report contains a headline key the result has \<^verbatim>\<open>exs\<close> and
  \<^verbatim>\<open>accuracy = 0\<close> only. Sums and quotient are those of the code's own arithmetic, taken
  in the order of the reporters.
\<close>

theorem aggregate_metrics_mean:
  assumes "\<forall>r \<in> set rs. snd r ''exs'' \<noteq> None"
  shows "case aggregate_metrics A E rs of
           Inl e \<Rightarrow> False
         | Inr a \<Rightarrow>
             entries a ''exs'' = Some (key_sum A ''exs'' rs)
             \<and> (if 0 < reporting_tasks E rs
                  then \<forall>k \<in> set (sums_keys E).
                         entries a k
                         = Some (round_sigfigs (fdiv A (key_sum A k rs) (of_nat (reporting_tasks E rs))) 4)
                  else entries a = Map.empty(''exs'' \<mapsto> key_sum A ''exs'' rs, ''accuracy'' \<mapsto> 0))"
proof -
  from aggregate_metrics_eq [OF assms, of A E] obtain a where "aggregate_metrics A E rs = Inr a"
    and "entries a ''exs'' = Some (key_sum A ''exs'' rs)
           \<and> (if 0 < reporting_tasks E rs
                then \<forall>k \<in> set (sums_keys E).
                       entries a k
                       = Some (round_sigfigs (fdiv A (key_sum A k rs) (of_nat (reporting_tasks E rs))) 4)
                else entries a = Map.empty(''exs'' \<mapsto> key_sum A ''exs'' rs, ''accuracy'' \<mapsto> 0))"
    by blast
  then show ?thesis
    by simp
qed

text \<open>
  The examples take numbers whose sums and quotients are doubles (multiples of a power of
  two), so that the float operations are the exact ones.
\<close>

lemma round_sigfigs_examples:
  "round_sigfigs (1 / 2) 4 = 1 / 2"
  "round_sigfigs (3 / 8) 4 = 3 / 8"
  "round_sigfigs (1 / 4) 4 = 1 / 4"
  by code_simp+

lemma aggregate_example_values:
  "key_sum \<lparr>fadd = (+), fdiv = (/)\<rparr> ''exs''
      [(''t'', Map.empty(''accuracy'' \<mapsto> 3 / 4, ''exs'' \<mapsto> 10)),
       (''t'', Map.empty(''accuracy'' \<mapsto> 1 / 4, ''exs'' \<mapsto> 90))] = 100"
  "key_sum \<lparr>fadd = (+), fdiv = (/)\<rparr> ''accuracy''
      [(''t'', Map.empty(''accuracy'' \<mapsto> 3 / 4, ''exs'' \<mapsto> 10)),
       (''t'', Map.empty(''accuracy'' \<mapsto> 1 / 4, ''exs'' \<mapsto> 90))] = 1"
  "reporting_tasks \<lparr>nltkbleu = None, rouge = None\<rparr>
      [(''t'', Map.empty(''accuracy'' \<mapsto> 3 / 4, ''exs'' \<mapsto> 10)),
       (''t'', Map.empty(''accuracy'' \<mapsto> 1 / 4, ''exs'' \<mapsto> 90))] = 2"
  by code_simp+

theorem aggregate_metrics_mean_witness:
  "case aggregate_metrics \<lparr>fadd = (+), fdiv = (/)\<rparr> \<lparr>nltkbleu = None, rouge = None\<rparr>
          [(''t'', Map.empty(''accuracy'' \<mapsto> 3 / 4, ''exs'' \<mapsto> 10)),
           (''t'', Map.empty(''accuracy'' \<mapsto> 1 / 4, ''exs'' \<mapsto> 90))] of
     Inl e \<Rightarrow> False
   | Inr a \<Rightarrow> entries a ''exs'' = Some 100 \<and> entries a ''accuracy'' = Some (1 / 2)"
  using aggregate_metrics_mean [of "[(''t'', Map.empty(''accuracy'' \<mapsto> 3 / 4, ''exs'' \<mapsto> 10)),
           (''t'', Map.empty(''accuracy'' \<mapsto> 1 / 4, ''exs'' \<mapsto> 90))]"
           "\<lparr>fadd = (+), fdiv = (/)\<rparr>" "\<lparr>nltkbleu = None, rouge = None\<rparr>"]
  by (simp add: aggregate_example_values round_sigfigs_examples sums_keys_def split: sum.splits)

theorem aggregate_metrics_shared_denominator:
  "case aggregate_metrics \<lparr>fadd = (+), fdiv = (/)\<rparr> \<lparr>nltkbleu = None, rouge = None\<rparr>
          [(''a'', Map.empty(''accuracy'' \<mapsto> 3 / 4, ''exs'' \<mapsto> 1)),
           (''b'', Map.empty(''f1'' \<mapsto> 1 / 2, ''exs'' \<mapsto> 1))] of
     Inl e \<Rightarrow> False
   | Inr a \<Rightarrow> entries a ''accuracy'' = Some (3 / 8) \<and> entries a ''accuracy'' \<noteq> Some (3 / 4)
             \<and> entries a ''f1'' = Some (1 / 4) \<and> entries a ''loss'' = Some 0"
  by code_simp

subsection \<open>Metrics supplied by the observation\<close>

text \<open>
  C5: a key of the observation's own metrics that is outside the reserved set and not
  yet in the table, on an accumulator that is not shared. The claim is that the key is
  registered and from then on is a first-class key of updates and reports. For the key
  \<^verbatim>\<open>my-metric\<close> on a fresh accumulator, without and with the two optional libraries:
  \<^verbatim>\<open>update()\<close> returns normally and registers the key with the value and the counter 1, and
  then \<^verbatim>\<open>report()\<close> raises \<^verbatim>\<open>KeyError\<close>, because it looks for the counter under
  \<^verbatim>\<open>my_cnt\<close>, the part of the key before the last hyphen.
\<close>

theorem custom_metric_hyphen_report_raises:
  "(case update \<lparr>nltkbleu = None, rouge = None\<rparr>
           \<lparr>obs_text = None, text_candidates = None, obs_metrics = Some [(''my-metric'', 1)]\<rparr> []
           (init \<lparr>nltkbleu = None, rouge = None\<rparr> Map.empty) of
      (s, r) \<Rightarrow>
        (case r of Inl e \<Rightarrow> False | Inr m \<Rightarrow> True)
        \<and> ''my-metric'' \<in> set (metrics_list s)
        \<and> metrics s ''my-metric'' = Some (Num 1)
        \<and> metrics s ''my-metric_cnt'' = Some (Num 1)
        \<and> metrics s ''my_cnt'' = None
        \<and> (case report A s of Inl e \<Rightarrow> e = KeyError | Inr m \<Rightarrow> False))
   \<and> (case update \<lparr>nltkbleu = Some (\<lambda>refs hyp weights. 0), rouge = Some (\<lambda>guess answer. None)\<rparr>
           \<lparr>obs_text = None, text_candidates = None, obs_metrics = Some [(''my-metric'', 1)]\<rparr> []
           (init \<lparr>nltkbleu = Some (\<lambda>refs hyp weights. 0), rouge = Some (\<lambda>guess answer. None)\<rparr> Map.empty) of
      (s, r) \<Rightarrow>
        (case r of Inl e \<Rightarrow> False | Inr m \<Rightarrow> True)
        \<and> ''my-metric'' \<in> set (metrics_list s)
        \<and> metrics s ''my-metric'' = Some (Num 1)
        \<and> metrics s ''my-metric_cnt'' = Some (Num 1)
        \<and> metrics s ''my_cnt'' = None
        \<and> (case report A s of Inl e \<Rightarrow> e = KeyError | Inr m \<Rightarrow> False))"
  by code_simp

subsection \<open>What a statement leaves unchanged\<close>

lemma frameD: "frame K f \<Longrightarrow> k \<notin> K \<Longrightarrow> metrics (fst (f s)) k = metrics s k"
  by (simp add: frame_def)

lemma frame_mono: "frame K f \<Longrightarrow> K \<subseteq> K' \<Longrightarrow> frame K' f"
  by (auto simp: frame_def)

lemma frame_skip: "frame K skip"
  by (simp add: frame_def skip_def)

lemma frame_raise: "frame K (raise e)"
  by (simp add: frame_def raise_def)

lemma frame_iff_pres: "frame K f \<longleftrightarrow> (\<forall>k x. k \<notin> K \<longrightarrow> pres (\<lambda>s. metrics s k = x) f)"
  by (auto simp: frame_def pres_def)

lemma frame_seq:
  assumes "frame K f" and "frame K g"
  shows "frame K (seq f g)"
  unfolding frame_iff_pres
proof (intro allI impI)
  fix k x
  assume "k \<notin> K"
  with assms have "pres (\<lambda>s. metrics s k = x) f" and "pres (\<lambda>s. metrics s k = x) g"
    by (simp_all add: frame_iff_pres)
  then show "pres (\<lambda>s. metrics s k = x) (seq f g)"
    by (rule pres_seq)
qed

lemma frame_seqs: "(\<And>f. f \<in> set fs \<Longrightarrow> frame K f) \<Longrightarrow> frame K (seqs fs)"
  by (induction fs) (simp_all add: frame_skip frame_seq)

lemma frame_for_each: "(\<And>x. x \<in> set xs \<Longrightarrow> frame K (body x)) \<Longrightarrow> frame K (for_each xs body)"
  unfolding for_each_def by (rule frame_seqs) auto

lemma frame_eval_then: "(\<And>x. frame K (f x)) \<Longrightarrow> frame K (eval_then r f)"
  unfolding frame_def eval_then_def by (cases r) simp_all

lemma frame_with_lock: "frame K f \<Longrightarrow> frame K (with_lock f)"
  by (simp add: with_lock_def)

lemma frame_iadd: "k \<in> K \<Longrightarrow> frame K (iadd k x)"
  by (auto simp: frame_def iadd_def split: option.splits val.splits)

lemma frame_iadd_opt: "k \<in> K \<Longrightarrow> frame K (iadd_opt k x)"
  by (auto simp: frame_def iadd_opt_def iadd_def split: option.splits val.splits)

lemma frame_iadd_counter: "k \<in> K \<Longrightarrow> frame K (iadd_counter k x)"
  by (auto simp: frame_def iadd_counter_def split: option.splits val.splits)

lemma frame_setitem: "k \<in> K \<Longrightarrow> frame K (setitem k x)"
  by (auto simp: frame_def setitem_def)

lemma frame_flags: "frame K set_print_prediction_metrics" "frame K set_has_text_cands"
  by (auto simp: frame_def set_print_prediction_metrics_def set_has_text_cands_def)

lemmas frame_intros = frame_skip frame_raise frame_seq frame_seqs frame_for_each frame_eval_then
  frame_with_lock frame_iadd frame_iadd_opt frame_iadd_counter frame_setitem frame_flags

lemma text_keys_mem:
  "''correct'' \<in> text_keys" "''correct_cnt'' \<in> text_keys" "''f1'' \<in> text_keys" "''f1_cnt'' \<in> text_keys"
  "''bleu_cnt'' \<in> text_keys" "''rouge-1'' \<in> text_keys" "''rouge-2'' \<in> text_keys"
  "''rouge-l'' \<in> text_keys" "''rouge_cnt'' \<in> text_keys" "''intra-distinct_cnt'' \<in> text_keys"
  by (simp_all add: text_keys_def)

lemma text_keys_loop:
  assumes "i \<in> set [1 ..< 5]"
  shows "''bleu-'' @ str i \<in> text_keys" "''intra-distinct-'' @ str i \<in> text_keys"
    "''inter-distinct-'' @ str i \<in> text_keys"
  using assms unfolding range_1_5 by (auto simp: str_digits text_keys_def)

lemma hits_keys_mem: "''hits@_cnt'' \<in> hits_keys" "k \<in> set eval_pr \<Longrightarrow> ''hits@'' @ str k \<in> hits_keys"
  by (auto simp: hits_keys_def eval_pr_def str_digits)

lemma frame_update_cnt: "frame {''cnt''} update_cnt"
  unfolding update_cnt_def by (intro frame_with_lock frame_iadd) simp

lemma frame_update_correct: "frame text_keys (update_correct p ls)"
  unfolding update_correct_def seqs.simps
  by (intro frame_with_lock frame_seq frame_skip frame_flags frame_iadd text_keys_mem)

lemma frame_update_bleu: "frame text_keys (update_bleu E p ls)"
proof (cases "nltkbleu E")
  case None
  then show ?thesis
    by (simp add: update_bleu_def frame_skip)
next
  case (Some a)
  have "frame text_keys (seq (for_each [1 ..< 5] (\<lambda>i. iadd_opt (''bleu-'' @ str i) (bleu E p ls i)))
            (iadd ''bleu_cnt'' 1))"
    by (intro frame_seq frame_for_each frame_iadd_opt frame_iadd text_keys_mem text_keys_loop)
  with Some show ?thesis
    by (simp add: update_bleu_def)
qed

lemma frame_update_rouge: "frame text_keys (update_rouge E p ls)"
proof (cases "rouge E")
  case None
  then show ?thesis
    by (simp add: update_rouge_def frame_skip)
next
  case (Some get_scores)
  have "frame text_keys (eval_then (rouge_scores get_scores p ls) (\<lambda>scores.
            seqs [iadd_opt ''rouge-1'' (scores ! 0),
                  iadd_opt ''rouge-2'' (scores ! 1),
                  iadd_opt ''rouge-l'' (scores ! 2),
                  iadd ''rouge_cnt'' 1]))"
    unfolding seqs.simps
    by (intro frame_eval_then frame_seq frame_skip frame_iadd_opt frame_iadd text_keys_mem)
  with Some show ?thesis
    by (simp add: update_rouge_def)
qed

lemma frame_update_distinct: "frame text_keys (update_distinct p)"
  unfolding update_distinct_def
  by (intro frame_seq frame_for_each frame_iadd frame_iadd_counter text_keys_mem text_keys_loop)

lemma frame_update_scores: "frame text_keys (update_scores E p ls)"
  unfolding update_scores_def seqs.simps
  by (intro frame_eval_then frame_with_lock frame_seq frame_skip frame_iadd text_keys_mem
      frame_update_bleu frame_update_rouge frame_update_distinct)

lemma frame_update_text: "frame text_keys (update_text E obs ls)"
  unfolding update_text_def
  by (cases "obs_text obs") (simp_all add: frame_skip frame_seq frame_update_correct frame_update_scores)

lemma frame_update_ranking_metrics: "frame hits_keys (update_ranking_metrics obs ls)"
proof (cases "text_candidates obs")
  case None
  then show ?thesis
    by (simp add: update_ranking_metrics_def frame_skip)
next
  case (Some cs)
  have "frame hits_keys (if c then iadd (''hits@'' @ str k) 1 else skip)" if "k \<in> set eval_pr" for k c
    using frame_iadd [OF hits_keys_mem(2) [OF that], of 1] frame_skip [of hits_keys] by (cases c) simp_all
  then have "frame hits_keys (with_lock (seqs [set_has_text_cands,
                               for_each eval_pr (\<lambda>k. if cnts k > 0 then iadd (''hits@'' @ str k) 1 else skip),
                               iadd ''hits@_cnt'' 1]))" for cnts :: "nat \<Rightarrow> nat"
    unfolding seqs.simps
    by (intro frame_with_lock frame_seq frame_skip frame_flags frame_for_each frame_iadd hits_keys_mem)
  with Some show ?thesis
    by (simp add: update_ranking_metrics_def Let_def)
qed

lemma user_metric_cases:
  "user_metric (k, v) s = seq (iadd k v) (iadd (k @ ''_cnt'') 1) s \<or> user_metric (k, v) s = (s, None)
   \<or> user_metric (k, v) s = register k v s \<or> user_metric (k, v) s = iadd k v s"
  by (simp add: user_metric_def with_lock_def)

lemma frame_register: "frame {k, k @ ''_cnt''} (register k v)"
  by (simp add: frame_def register_def)

lemma frame_user_metric: "frame {k, k @ ''_cnt''} (user_metric (k, v))"
  unfolding frame_def
proof (intro allI impI)
  fix s k'
  assume k': "k' \<notin> {k, k @ ''_cnt''}"
  have a: "frame {k, k @ ''_cnt''} (seq (iadd k v) (iadd (k @ ''_cnt'') 1))"
    by (intro frame_seq frame_iadd) simp_all
  have b: "frame {k, k @ ''_cnt''} (iadd k v)"
    by (intro frame_iadd) simp
  from user_metric_cases [of k v s] frameD [OF a k', where s = s] frameD [OF b k', where s = s]
    frameD [OF frame_register [of k v] k', where s = s]
  show "metrics (fst (user_metric (k, v) s)) k' = metrics s k'"
    by auto
qed

lemma frame_update_user: "frame (\<Union>k \<in> fst ` set items. {k, k @ ''_cnt''}) (for_each items user_metric)"
proof (rule frame_for_each)
  fix x
  assume x: "x \<in> set items"
  obtain k v where kv: "x = (k, v)"
    by (cases x)
  have sub: "{k, k @ ''_cnt''} \<subseteq> (\<Union>k \<in> fst ` set items. {k, k @ ''_cnt''})"
    using x kv by force
  have "frame {k, k @ ''_cnt''} (user_metric (k, v))"
    by (rule frame_user_metric)
  then show "frame (\<Union>k \<in> fst ` set items. {k, k @ ''_cnt''}) (user_metric x)"
    unfolding kv using sub by (rule frame_mono)
qed

subsection \<open>The ranking part of an update\<close>

lemma fold_eval_pr:
  assumes "K \<in> set eval_pr"
  shows "fold (\<lambda>k m. if n \<le> k then m(k := m k + 1) else m) eval_pr cnts K
         = (cnts :: nat \<Rightarrow> nat) K + (if n \<le> K then 1 else 0)"
  using assms by (auto simp: eval_pr_def)

lemma count_hits_eq:
  assumes "K \<in> set eval_pr"
  shows "count_hits L cs n cnts K
         = cnts K + length (filter (\<lambda>c. normalize_answer c \<in> L) (take (K - n) cs))"
proof (induction cs arbitrary: n cnts)
  case Nil
  then show ?case by simp
next
  case (Cons c cs)
  show ?case
  proof (cases "n < K")
    case True
    then have "K - n = Suc (K - (n + 1))"
      by arith
    then have t: "take (K - n) (c # cs) = c # take (K - (n + 1)) cs"
      by simp
    from True show ?thesis
      by (simp add: Let_def Cons.IH fold_eval_pr [OF assms] t)
  next
    case False
    then show ?thesis
      by (simp add: Let_def Cons.IH fold_eval_pr [OF assms])
  qed
qed

lemma count_hits_pos:
  assumes "K \<in> set eval_pr"
  shows "0 < count_hits L cs 0 (\<lambda>k. 0) K \<longleftrightarrow> (\<exists>c \<in> set (take K cs). normalize_answer c \<in> L)"
  by (simp add: count_hits_eq [OF assms] filter_empty_conv)

lemma count_hits_mono:
  assumes "K \<in> set eval_pr" and "K' \<in> set eval_pr" and "K \<le> K'"
    and "0 < count_hits L cs 0 (\<lambda>k. 0) K"
  shows "0 < count_hits L cs 0 (\<lambda>k. 0) K'"
proof -
  from assms(4) obtain c where c: "c \<in> set (take K cs)" "normalize_answer c \<in> L"
    unfolding count_hits_pos [OF assms(1)] by blast
  from assms(3) have "set (take K cs) \<subseteq> set (take K' cs)"
    by (rule set_take_subset_set_take)
  with c show ?thesis
    unfolding count_hits_pos [OF assms(2)] by blast
qed

lemma seq_chain: "f s = (s1, None) \<Longrightarrow> g s1 = r \<Longrightarrow> seq f g s = r"
  by (simp add: seq_def)

lemma cond_iadd:
  assumes "metrics s k = Some (Num h)"
  shows "(if c then iadd k 1 else skip) s
         = (s\<lparr>metrics := (metrics s)(k \<mapsto> Num (h + (if c then 1 else 0)))\<rparr>, None)"
proof (cases c)
  case True
  then show ?thesis
    by (simp add: iadd_def assms)
next
  case False
  have "(metrics s)(k \<mapsto> Num h) = metrics s"
    using assms by (rule map_upd_triv)
  with False show ?thesis
    by (simp add: skip_def)
qed

lemma hits_block:
  fixes cnts :: "nat \<Rightarrow> nat"
  assumes h: "metrics s ''hits@1'' = Some (Num h1)" "metrics s ''hits@5'' = Some (Num h5)"
    "metrics s ''hits@10'' = Some (Num h10)" "metrics s ''hits@100'' = Some (Num h100)"
    "metrics s ''hits@_cnt'' = Some (Num hc)"
  shows "with_lock (seqs [set_has_text_cands,
            for_each eval_pr (\<lambda>k. if cnts k > 0 then iadd (''hits@'' @ str k) 1 else skip),
            iadd ''hits@_cnt'' 1]) s
         = (s\<lparr>has_text_cands := True,
              metrics := (metrics s)
                (''hits@1'' \<mapsto> Num (h1 + (if 0 < cnts 1 then 1 else 0)),
                 ''hits@5'' \<mapsto> Num (h5 + (if 0 < cnts 5 then 1 else 0)),
                 ''hits@10'' \<mapsto> Num (h10 + (if 0 < cnts 10 then 1 else 0)),
                 ''hits@100'' \<mapsto> Num (h100 + (if 0 < cnts 100 then 1 else 0)),
                 ''hits@_cnt'' \<mapsto> Num (hc + 1))\<rparr>, None)"
proof -
  define s0 where "s0 = s\<lparr>has_text_cands := True\<rparr>"
  define s1 where "s1 = s0\<lparr>metrics := (metrics s0)(''hits@1'' \<mapsto> Num (h1 + (if 0 < cnts 1 then 1 else 0)))\<rparr>"
  define s2 where "s2 = s1\<lparr>metrics := (metrics s1)(''hits@5'' \<mapsto> Num (h5 + (if 0 < cnts 5 then 1 else 0)))\<rparr>"
  define s3 where "s3 = s2\<lparr>metrics := (metrics s2)(''hits@10'' \<mapsto> Num (h10 + (if 0 < cnts 10 then 1 else 0)))\<rparr>"
  define s4 where "s4 = s3\<lparr>metrics := (metrics s3)(''hits@100'' \<mapsto> Num (h100 + (if 0 < cnts 100 then 1 else 0)))\<rparr>"
  define s5 where "s5 = s4\<lparr>metrics := (metrics s4)(''hits@_cnt'' \<mapsto> Num (hc + 1))\<rparr>"
  have e0: "set_has_text_cands s = (s0, None)"
    by (simp add: set_has_text_cands_def s0_def)
  have "metrics s0 ''hits@1'' = Some (Num h1)"
    by (simp add: s0_def h)
  then have e1: "(if 0 < cnts 1 then iadd ''hits@1'' 1 else skip) s0 = (s1, None)"
    unfolding s1_def by (rule cond_iadd)
  have "metrics s1 ''hits@5'' = Some (Num h5)"
    by (simp add: s1_def s0_def h)
  then have e2: "(if 0 < cnts 5 then iadd ''hits@5'' 1 else skip) s1 = (s2, None)"
    unfolding s2_def by (rule cond_iadd)
  have "metrics s2 ''hits@10'' = Some (Num h10)"
    by (simp add: s2_def s1_def s0_def h)
  then have e3: "(if 0 < cnts 10 then iadd ''hits@10'' 1 else skip) s2 = (s3, None)"
    unfolding s3_def by (rule cond_iadd)
  have "metrics s3 ''hits@100'' = Some (Num h100)"
    by (simp add: s3_def s2_def s1_def s0_def h)
  then have e4: "(if 0 < cnts 100 then iadd ''hits@100'' 1 else skip) s3 = (s4, None)"
    unfolding s4_def by (rule cond_iadd)
  have "metrics s4 ''hits@_cnt'' = Some (Num hc)"
    by (simp add: s4_def s3_def s2_def s1_def s0_def h)
  then have e5: "iadd ''hits@_cnt'' 1 s4 = (s5, None)"
    unfolding s5_def by (simp add: iadd_def)
  have loop: "for_each eval_pr (\<lambda>k. if cnts k > 0 then iadd (''hits@'' @ str k) 1 else skip) s0 = (s4, None)"
  proof -
    have "for_each eval_pr (\<lambda>k. if cnts k > 0 then iadd (''hits@'' @ str k) 1 else skip)
          = seq (if 0 < cnts 1 then iadd ''hits@1'' 1 else skip)
              (seq (if 0 < cnts 5 then iadd ''hits@5'' 1 else skip)
                (seq (if 0 < cnts 10 then iadd ''hits@10'' 1 else skip)
                  (seq (if 0 < cnts 100 then iadd ''hits@100'' 1 else skip) skip)))"
      by (simp add: for_each_def eval_pr_def str_digits)
    moreover have "seq (if 0 < cnts 1 then iadd ''hits@1'' 1 else skip)
              (seq (if 0 < cnts 5 then iadd ''hits@5'' 1 else skip)
                (seq (if 0 < cnts 10 then iadd ''hits@10'' 1 else skip)
                  (seq (if 0 < cnts 100 then iadd ''hits@100'' 1 else skip) skip))) s0 = (s4, None)"
      by (rule seq_chain, rule e1, rule seq_chain, rule e2, rule seq_chain, rule e3,
          rule seq_chain, rule e4, simp add: skip_def)
    ultimately show ?thesis
      by simp
  qed
  have "with_lock (seqs [set_has_text_cands,
            for_each eval_pr (\<lambda>k. if cnts k > 0 then iadd (''hits@'' @ str k) 1 else skip),
            iadd ''hits@_cnt'' 1]) s = (s5, None)"
    unfolding with_lock_def seqs.simps
    by (rule seq_chain, rule e0, rule seq_chain, rule loop, rule seq_chain, rule e5, simp add: skip_def)
  moreover have "s5 = s\<lparr>has_text_cands := True,
              metrics := (metrics s)
                (''hits@1'' \<mapsto> Num (h1 + (if 0 < cnts 1 then 1 else 0)),
                 ''hits@5'' \<mapsto> Num (h5 + (if 0 < cnts 5 then 1 else 0)),
                 ''hits@10'' \<mapsto> Num (h10 + (if 0 < cnts 10 then 1 else 0)),
                 ''hits@100'' \<mapsto> Num (h100 + (if 0 < cnts 100 then 1 else 0)),
                 ''hits@_cnt'' \<mapsto> Num (hc + 1))\<rparr>"
    by (simp add: s5_def s4_def s3_def s2_def s1_def s0_def)
  ultimately show ?thesis
    by simp
qed

subsection \<open>Sequences of calls\<close>

subsection \<open>The chain of the hit accumulators\<close>

lemma hits_chain_iff:
  "hits_chain s \<longleftrightarrow> (\<exists>a b c d e. metrics s ''hits@1'' = Some (Num a) \<and> metrics s ''hits@5'' = Some (Num b)
      \<and> metrics s ''hits@10'' = Some (Num c) \<and> metrics s ''hits@100'' = Some (Num d)
      \<and> metrics s ''hits@_cnt'' = Some (Num e) \<and> a \<le> b \<and> b \<le> c \<and> c \<le> d \<and> d \<le> e)"
  unfolding hits_chain_def
  by (cases "metrics s ''hits@1''"; cases "metrics s ''hits@5''"; cases "metrics s ''hits@10''";
      cases "metrics s ''hits@100''"; cases "metrics s ''hits@_cnt''")
     (auto split: val.splits)

lemma hits_chain_cong:
  assumes "\<And>k. k \<in> hits_keys \<Longrightarrow> metrics s' k = metrics s k"
  shows "hits_chain s' = hits_chain s"
proof -
  have "metrics s' ''hits@1'' = metrics s ''hits@1''" "metrics s' ''hits@5'' = metrics s ''hits@5''"
    "metrics s' ''hits@10'' = metrics s ''hits@10''" "metrics s' ''hits@100'' = metrics s ''hits@100''"
    "metrics s' ''hits@_cnt'' = metrics s ''hits@_cnt''"
    by (rule assms, simp add: hits_keys_def)+
  then show ?thesis
    by (simp add: hits_chain_def)
qed

lemma frame_pres_hits_chain:
  assumes f: "frame K f" and d: "K \<inter> hits_keys = {}"
  shows "pres hits_chain f"
  unfolding pres_def
proof (intro allI impI)
  fix s
  assume c: "hits_chain s"
  have "hits_chain (fst (f s)) = hits_chain s"
  proof (rule hits_chain_cong)
    fix k
    assume "k \<in> hits_keys"
    with d have "k \<notin> K"
      by blast
    with f show "metrics (fst (f s)) k = metrics s k"
      by (rule frameD)
  qed
  with c show "hits_chain (fst (f s))"
    by simp
qed

lemma pres_ranking_hits_chain: "pres hits_chain (update_ranking_metrics obs labels)"
proof (cases "text_candidates obs")
  case None
  then show ?thesis
    by (simp add: update_ranking_metrics_def pres_skip)
next
  case (Some cs)
  show ?thesis
    unfolding pres_def
  proof (intro allI impI)
    fix s
    assume "hits_chain s"
    then obtain a b c d e where h: "metrics s ''hits@1'' = Some (Num a)" "metrics s ''hits@5'' = Some (Num b)"
      "metrics s ''hits@10'' = Some (Num c)" "metrics s ''hits@100'' = Some (Num d)"
      "metrics s ''hits@_cnt'' = Some (Num e)" and le: "a \<le> b" "b \<le> c" "c \<le> d" "d \<le> e"
      unfolding hits_chain_iff by blast
    define cnts where "cnts = count_hits (set (map normalize_answer labels)) cs 0 (\<lambda>k. 0)"
    have m: "0 < cnts 1 \<Longrightarrow> 0 < cnts 5" "0 < cnts 5 \<Longrightarrow> 0 < cnts 10" "0 < cnts 10 \<Longrightarrow> 0 < cnts 100"
      unfolding cnts_def by (rule count_hits_mono; simp add: eval_pr_def)+
    have "update_ranking_metrics obs labels s
          = with_lock (seqs [set_has_text_cands,
              for_each eval_pr (\<lambda>k. if cnts k > 0 then iadd (''hits@'' @ str k) 1 else skip),
              iadd ''hits@_cnt'' 1]) s"
      by (simp add: update_ranking_metrics_def Some Let_def cnts_def)
    also note hits_block [OF h, of cnts]
    finally show "hits_chain (fst (update_ranking_metrics obs labels s))"
      using le m by (auto simp: hits_chain_iff)
  qed
qed

lemma pres_conj: "pres P f \<Longrightarrow> pres Q f \<Longrightarrow> pres (\<lambda>s. P s \<and> Q s) f"
  by (simp add: pres_def)

lemma keep_atoms:
  "pres (\<lambda>s. metrics_list s = l) (iadd k x)"
  "pres (\<lambda>s. metrics_list s = l) (iadd_opt k y)"
  "pres (\<lambda>s. metrics_list s = l) (iadd_counter k c)"
  "pres (\<lambda>s. metrics_list s = l) (setitem k v)"
  "pres (\<lambda>s. metrics_list s = l) set_print_prediction_metrics"
  "pres (\<lambda>s. metrics_list s = l) set_has_text_cands"
  by (auto simp: pres_def iadd_def iadd_opt_def iadd_counter_def setitem_def
      set_print_prediction_metrics_def set_has_text_cands_def split: option.splits val.splits)

lemmas keep_intros = pres_skip pres_seq pres_for_each pres_eval_then pres_with_lock keep_atoms

lemma keep_update_cnt: "pres (\<lambda>s. metrics_list s = l) update_cnt"
  unfolding update_cnt_def by (intro keep_intros)

lemma keep_update_correct: "pres (\<lambda>s. metrics_list s = l) (update_correct p ls)"
  unfolding update_correct_def seqs.simps by (intro keep_intros)

lemma keep_update_bleu: "pres (\<lambda>s. metrics_list s = l) (update_bleu E p ls)"
proof (cases "nltkbleu E")
  case None
  then show ?thesis
    by (simp add: update_bleu_def pres_skip)
next
  case (Some a)
  have "pres (\<lambda>s. metrics_list s = l)
          (seq (for_each [1 ..< 5] (\<lambda>i. iadd_opt (''bleu-'' @ str i) (bleu E p ls i))) (iadd ''bleu_cnt'' 1))"
    by (intro keep_intros)
  with Some show ?thesis
    by (simp add: update_bleu_def)
qed

lemma keep_update_rouge: "pres (\<lambda>s. metrics_list s = l) (update_rouge E p ls)"
proof (cases "rouge E")
  case None
  then show ?thesis
    by (simp add: update_rouge_def pres_skip)
next
  case (Some get_scores)
  have "pres (\<lambda>s. metrics_list s = l) (eval_then (rouge_scores get_scores p ls) (\<lambda>scores.
            seqs [iadd_opt ''rouge-1'' (scores ! 0),
                  iadd_opt ''rouge-2'' (scores ! 1),
                  iadd_opt ''rouge-l'' (scores ! 2),
                  iadd ''rouge_cnt'' 1]))"
    unfolding seqs.simps by (intro keep_intros)
  with Some show ?thesis
    by (simp add: update_rouge_def)
qed

lemma keep_update_distinct: "pres (\<lambda>s. metrics_list s = l) (update_distinct p)"
  unfolding update_distinct_def by (intro keep_intros)

lemma keep_update_scores: "pres (\<lambda>s. metrics_list s = l) (update_scores E p ls)"
  unfolding update_scores_def seqs.simps
  by (intro keep_intros keep_update_bleu keep_update_rouge keep_update_distinct)

lemma keep_update_text: "pres (\<lambda>s. metrics_list s = l) (update_text E obs ls)"
  unfolding update_text_def
  by (cases "obs_text obs") (simp_all add: pres_skip pres_seq keep_update_correct keep_update_scores)

lemma keep_update_ranking_metrics: "pres (\<lambda>s. metrics_list s = l) (update_ranking_metrics obs ls)"
proof (cases "text_candidates obs")
  case None
  then show ?thesis
    by (simp add: update_ranking_metrics_def pres_skip)
next
  case (Some cs)
  have "pres (\<lambda>s. metrics_list s = l) (if c then iadd k 1 else skip)" for c k
    by (cases c) (simp_all add: keep_atoms pres_skip)
  then have "pres (\<lambda>s. metrics_list s = l) (with_lock (seqs [set_has_text_cands,
                               for_each eval_pr (\<lambda>k. if cnts k > 0 then iadd (''hits@'' @ str k) 1 else skip),
                               iadd ''hits@_cnt'' 1]))" for cnts :: "nat \<Rightarrow> nat"
    unfolding seqs.simps by (intro keep_intros)
  with Some show ?thesis
    by (simp add: update_ranking_metrics_def Let_def)
qed

lemma keep_list_ok:
  assumes "\<And>l. pres (\<lambda>s. metrics_list s = l) f"
  shows "pres list_ok f"
  unfolding pres_def
proof (intro allI impI)
  fix s
  assume "list_ok s"
  moreover from presD [OF assms [of "metrics_list s"], of s] have "metrics_list (fst (f s)) = metrics_list s"
    by simp
  ultimately show "list_ok (fst (f s))"
    by (simp add: list_ok_def)
qed

lemma user_metric_list:
  "metrics_list (fst (user_metric (k, v) s)) = metrics_list s
   \<or> metrics_list (fst (user_metric (k, v) s)) = metrics_list s @ [k]"
proof -
  have "pres (\<lambda>t. metrics_list t = metrics_list s) (seq (iadd k v) (iadd (k @ ''_cnt'') 1))"
    by (intro keep_intros)
  from presD [OF this] have a: "metrics_list (fst (seq (iadd k v) (iadd (k @ ''_cnt'') 1) s)) = metrics_list s"
    by simp
  have "pres (\<lambda>t. metrics_list t = metrics_list s) (iadd k v)"
    by (intro keep_intros)
  from presD [OF this] have b: "metrics_list (fst (iadd k v s)) = metrics_list s"
    by simp
  have c: "metrics_list (fst (register k v s)) = metrics_list s @ [k]"
    by (simp add: register_def)
  from user_metric_cases [of k v s] a b c show ?thesis
    by auto
qed

lemma pres_user_metric_list_ok:
  assumes "k \<notin> hits_keys" and "k @ ''_cnt'' \<notin> hits_keys"
  shows "pres list_ok (user_metric (k, v))"
  unfolding pres_def
proof (intro allI impI)
  fix s
  assume "list_ok s"
  with user_metric_list [of k v s] assms show "list_ok (fst (user_metric (k, v) s))"
    by (auto simp: list_ok_def)
qed

lemma pres_user_metric_hits_chain:
  assumes "k \<notin> hits_keys" and "k @ ''_cnt'' \<notin> hits_keys"
  shows "pres hits_chain (user_metric (k, v))"
  using frame_user_metric
proof (rule frame_pres_hits_chain)
  from assms show "{k, k @ ''_cnt''} \<inter> hits_keys = {}"
    by simp
qed

text \<open>The invariant: the chain holds and \<^verbatim>\<open>metrics_list\<close> stays clear of the hit accumulators.\<close>

lemma pres_update_user:
  assumes "\<forall>k \<in> set (user_keys obs). k \<notin> hits_keys \<and> k @ ''_cnt'' \<notin> hits_keys"
  shows "pres (\<lambda>s. hits_chain s \<and> list_ok s) (update_user obs)"
proof (cases "obs_metrics obs")
  case None
  then show ?thesis
    by (simp add: update_user_def pres_skip)
next
  case (Some items)
  have "pres (\<lambda>s. hits_chain s \<and> list_ok s) (for_each items user_metric)"
  proof (rule pres_for_each)
    fix x
    assume x: "x \<in> set items"
    obtain k v where kv: "x = (k, v)"
      by (cases x)
    from x kv Some have "k \<in> set (user_keys obs)"
      by (force simp: user_keys_def)
    with assms have k: "k \<notin> hits_keys" "k @ ''_cnt'' \<notin> hits_keys"
      by simp_all
    show "pres (\<lambda>s. hits_chain s \<and> list_ok s) (user_metric x)"
      unfolding kv
      by (rule pres_conj [OF pres_user_metric_hits_chain [OF k] pres_user_metric_list_ok [OF k]])
  qed
  with Some show ?thesis
    by (simp add: update_user_def)
qed

lemma text_keys_hits_keys: "text_keys \<inter> hits_keys = {}"
  by (simp add: text_keys_def hits_keys_def)

lemma pres_update_stmt:
  assumes "\<forall>k \<in> set (user_keys obs). k \<notin> hits_keys \<and> k @ ''_cnt'' \<notin> hits_keys"
  shows "pres (\<lambda>s. hits_chain s \<and> list_ok s) (update_stmt E obs labels)"
proof -
  have 1: "pres (\<lambda>s. hits_chain s \<and> list_ok s) update_cnt"
    by (intro pres_conj keep_list_ok keep_update_cnt frame_pres_hits_chain [OF frame_update_cnt])
       (simp add: hits_keys_def)
  have 2: "pres (\<lambda>s. hits_chain s \<and> list_ok s) (update_text E obs labels)"
    by (intro pres_conj keep_list_ok keep_update_text
        frame_pres_hits_chain [OF frame_update_text text_keys_hits_keys])
  have 3: "pres (\<lambda>s. hits_chain s \<and> list_ok s) (update_ranking_metrics obs labels)"
    by (intro pres_conj keep_list_ok keep_update_ranking_metrics pres_ranking_hits_chain)
  show ?thesis
    unfolding update_stmt_def seqs.simps
    by (intro pres_seq pres_skip 1 2 3 pres_update_user [OF assms])
qed

lemma fst_update: "fst (update E obs labels s) = fst (update_stmt E obs labels s)"
  by (simp add: update_def split: prod.splits option.splits)

lemma clear_key_cases:
  "clear_key k s = (s, Some KeyError)
   \<or> clear_key k s = seq (if startswith k ''inter-distinct'' then setitem k (Counter {#}) else setitem k (Num 0))
              (if \<not> is_crs k then setitem (k @ ''_cnt'') (Num 0) else skip) s"
  by (cases "metrics s k") (simp_all add: clear_key_def)

lemma keep_clear_key: "pres (\<lambda>s. metrics_list s = l) (clear_key k)"
proof -
  have "pres (\<lambda>s. metrics_list s = l)
          (seq (if startswith k ''inter-distinct'' then setitem k (Counter {#}) else setitem k (Num 0))
              (if \<not> is_crs k then setitem (k @ ''_cnt'') (Num 0) else skip))"
    by (intro pres_seq) (simp_all add: keep_atoms pres_skip)
  from presD [OF this] clear_key_cases [of k] show ?thesis
    unfolding pres_def by (metis fst_conv)
qed

lemma frame_clear_key: "frame {k, k @ ''_cnt''} (clear_key k)"
proof -
  have "frame {k, k @ ''_cnt''}
          (seq (if startswith k ''inter-distinct'' then setitem k (Counter {#}) else setitem k (Num 0))
              (if \<not> is_crs k then setitem (k @ ''_cnt'') (Num 0) else skip))"
    by (intro frame_seq) (simp_all add: frame_setitem frame_skip)
  from frameD [OF this] clear_key_cases [of k] show ?thesis
    unfolding frame_def by (metis fst_conv)
qed

lemma hits_chain_zero:
  "hits_chain (fst (seq (for_each eval_pr (\<lambda>k. setitem (''hits@'' @ str k) (Num 0)))
                       (seq (setitem ''hits@_cnt'' (Num 0)) skip) t))"
  by (simp add: for_each_def eval_pr_def str_digits seq_def setitem_def skip_def hits_chain_def)

lemma pres_clear_body:
  assumes "list_all (\<lambda>k. k \<notin> hits_keys \<and> k @ ''_cnt'' \<notin> hits_keys) l"
  shows "pres hits_chain (seqs [setitem ''cnt'' (Num 0),
                      for_each l clear_key,
                      for_each crs_metrics (\<lambda>crs_metric.
                        if crs_metric \<noteq> ''inter-distinct'' then setitem (crs_metric @ ''_cnt'') (Num 0)
                        else skip),
                      for_each eval_pr (\<lambda>k. setitem (''hits@'' @ str k) (Num 0)),
                      setitem ''hits@_cnt'' (Num 0)])"
proof -
  have a: "pres hits_chain (setitem ''cnt'' (Num 0))"
    by (rule frame_pres_hits_chain [OF frame_setitem [of "''cnt''" "{''cnt''}"]]) (simp_all add: hits_keys_def)
  have b: "pres hits_chain (for_each l clear_key)"
  proof (rule pres_for_each)
    fix k
    assume "k \<in> set l"
    with assms have "{k, k @ ''_cnt''} \<inter> hits_keys = {}"
      by (simp add: list_all_iff)
    with frame_clear_key show "pres hits_chain (clear_key k)"
      by (rule frame_pres_hits_chain)
  qed
  have c: "pres hits_chain (for_each crs_metrics (\<lambda>crs_metric.
                        if crs_metric \<noteq> ''inter-distinct'' then setitem (crs_metric @ ''_cnt'') (Num 0)
                        else skip))"
  proof (rule pres_for_each)
    fix x
    assume "x \<in> set crs_metrics"
    then have "x @ ''_cnt'' \<notin> hits_keys"
      by (auto simp: crs_metrics_def hits_keys_def)
    then have "pres hits_chain (setitem (x @ ''_cnt'') (Num 0))"
      by (intro frame_pres_hits_chain [OF frame_setitem [of "x @ ''_cnt''" "{x @ ''_cnt''}"]]) simp_all
    then show "pres hits_chain (if x \<noteq> ''inter-distinct'' then setitem (x @ ''_cnt'') (Num 0) else skip)"
      by (simp add: pres_skip)
  qed
  have z: "pres hits_chain (seq (for_each eval_pr (\<lambda>k. setitem (''hits@'' @ str k) (Num 0)))
                       (seq (setitem ''hits@_cnt'' (Num 0)) skip))"
    unfolding pres_def using hits_chain_zero by blast
  show ?thesis
    unfolding seqs.simps by (intro pres_seq a b c z)
qed

lemma clear_inv:
  assumes "hits_chain s" and "list_ok s"
  shows "hits_chain (fst (clear s)) \<and> list_ok (fst (clear s))"
proof
  from assms(2) have "list_all (\<lambda>k. k \<notin> hits_keys \<and> k @ ''_cnt'' \<notin> hits_keys) (metrics_list s)"
    by (simp add: list_ok_def)
  from presD [OF pres_clear_body [OF this] assms(1)] show "hits_chain (fst (clear s))"
    by (simp add: clear_def with_lock_def)
next
  have "pres (\<lambda>t. metrics_list t = metrics_list s) (seqs [setitem ''cnt'' (Num 0),
                      for_each (metrics_list s) clear_key,
                      for_each crs_metrics (\<lambda>crs_metric.
                        if crs_metric \<noteq> ''inter-distinct'' then setitem (crs_metric @ ''_cnt'') (Num 0)
                        else skip),
                      for_each eval_pr (\<lambda>k. setitem (''hits@'' @ str k) (Num 0)),
                      setitem ''hits@_cnt'' (Num 0)])"
    unfolding seqs.simps
    by (intro pres_seq pres_for_each pres_skip keep_clear_key) (simp_all add: keep_atoms pres_skip)
  from presD [OF this, of s] have "metrics_list (fst (clear s)) = metrics_list s"
    by (simp add: clear_def with_lock_def)
  with assms(2) show "list_ok (fst (clear s))"
    by (simp add: list_ok_def)
qed

lemma init_inv: "hits_chain (init E opt) \<and> list_ok (init E opt)"
proof
  show "hits_chain (init E opt)"
    by (simp add: hits_chain_iff init_table)
  show "list_ok (init E opt)"
    unfolding list_ok_def init_table_list initial_metrics_list_def range_1_5
    by (simp add: str_digits hits_keys_def)
qed

lemma run_inv:
  assumes "hits_chain s \<and> list_ok s"
    and "\<forall>c \<in> set calls. case c of
           Update obs labels \<Rightarrow> (\<forall>k \<in> set (user_keys obs). k \<notin> hits_keys \<and> k @ ''_cnt'' \<notin> hits_keys)
         | Clear \<Rightarrow> True"
  shows "hits_chain (run E calls s) \<and> list_ok (run E calls s)"
  using assms
proof (induction calls arbitrary: s)
  case Nil
  then show ?case
    by (simp add: run_def)
next
  case (Cons c calls)
  have "hits_chain (step E c s) \<and> list_ok (step E c s)"
  proof (cases c)
    case (Update obs labels)
    with Cons.prems(2) have "\<forall>k \<in> set (user_keys obs). k \<notin> hits_keys \<and> k @ ''_cnt'' \<notin> hits_keys"
      by simp
    from presD [OF pres_update_stmt [OF this] Cons.prems(1)] Update show ?thesis
      by (simp add: fst_update)
  next
    case Clear
    with clear_inv Cons.prems(1) show ?thesis
      by simp
  qed
  moreover from Cons.prems(2) have "\<forall>c \<in> set calls. case c of
           Update obs labels \<Rightarrow> (\<forall>k \<in> set (user_keys obs). k \<notin> hits_keys \<and> k @ ''_cnt'' \<notin> hits_keys)
         | Clear \<Rightarrow> True"
    by simp
  ultimately have "hits_chain (run E calls (step E c s)) \<and> list_ok (run E calls (step E c s))"
    by (rule Cons.IH)
  then show ?case
    by (simp add: run_def)
qed

text \<open>
  C10: on a fresh accumulator, after every sequence of \<^verbatim>\<open>update()\<close> and \<^verbatim>\<open>clear()\<close> calls in
  which no observation supplies a metric whose key, or whose key followed by \<^verbatim>\<open>_cnt\<close>, is
  one of the hit accumulators, the hit accumulators are numbers with
  \<^verbatim>\<open>hits@1 <= hits@5 <= hits@10 <= hits@100 <= hits@_cnt\<close>. Calls that raise are included.
\<close>

theorem hits_chain_run:
  assumes "\<forall>c \<in> set calls. case c of
             Update obs labels \<Rightarrow> (\<forall>k \<in> set (user_keys obs). k \<notin> hits_keys \<and> k @ ''_cnt'' \<notin> hits_keys)
           | Clear \<Rightarrow> True"
  shows "hits_chain (run E calls (init E opt))"
  using run_inv [OF init_inv assms] by simp

theorem hits_chain_run_witness:
  "hits_chain (run \<lparr>nltkbleu = None, rouge = None\<rparr>
        [Update \<lparr>obs_text = None, text_candidates = Some [''b'', ''a'', ''c''],
                        obs_metrics = Some [(''loss'', 1 / 2)]\<rparr> [''a''],
         Clear,
         Update \<lparr>obs_text = Some ''a cat'', text_candidates = Some [''a dog'', ''the cat''],
                        obs_metrics = None\<rparr> [''cat'']]
        (init \<lparr>nltkbleu = None, rouge = None\<rparr> Map.empty))"
  using hits_chain_run [of "[Update \<lparr>obs_text = None, text_candidates = Some [''b'', ''a'', ''c''],
                        obs_metrics = Some [(''loss'', 1 / 2)]\<rparr> [''a''],
         Clear,
         Update \<lparr>obs_text = Some ''a cat'', text_candidates = Some [''a dog'', ''the cat''],
                        obs_metrics = None\<rparr> [''cat'']]" "\<lparr>nltkbleu = None, rouge = None\<rparr>" Map.empty]
  by (simp add: user_keys_def hits_keys_def)

theorem hits_chain_broken_by_user_metric:
  "\<not> hits_chain (run \<lparr>nltkbleu = None, rouge = None\<rparr>
        [Update \<lparr>obs_text = None, text_candidates = None, obs_metrics = Some [(''hits@1'', 5)]\<rparr> []]
        (init \<lparr>nltkbleu = None, rouge = None\<rparr> Map.empty))
   \<and> metrics (run \<lparr>nltkbleu = None, rouge = None\<rparr>
        [Update \<lparr>obs_text = None, text_candidates = None, obs_metrics = Some [(''hits@1'', 5)]\<rparr> []]
        (init \<lparr>nltkbleu = None, rouge = None\<rparr> Map.empty)) ''hits@1'' = Some (Num 5)
   \<and> metrics (run \<lparr>nltkbleu = None, rouge = None\<rparr>
        [Update \<lparr>obs_text = None, text_candidates = None, obs_metrics = Some [(''hits@1'', 5)]\<rparr> []]
        (init \<lparr>nltkbleu = None, rouge = None\<rparr> Map.empty)) ''hits@5'' = Some (Num 0)"
  by code_simp

subsection \<open>The hit accumulators in one update\<close>

lemma seq_fst_ok: "snd (f s) = None \<Longrightarrow> seq f g s = g (fst (f s))"
  by (cases "f s") (simp add: seq_def)

lemma fst_seq_skip: "fst (seq f skip s) = fst (f s)"
  by (cases "f s") (simp add: seq_def skip_def split: option.splits)

lemma frame_update_user_obs:
  "frame (\<Union>k \<in> set (user_keys obs). {k, k @ ''_cnt''}) (update_user obs)"
proof (cases "obs_metrics obs")
  case None
  then show ?thesis
    by (simp add: update_user_def frame_skip)
next
  case (Some items)
  with frame_update_user [of items] show ?thesis
    by (simp add: update_user_def user_keys_def)
qed

lemma update_ranking_metrics_eq:
  assumes tc: "text_candidates obs = Some cs"
    and h: "metrics s ''hits@1'' = Some (Num h1)" "metrics s ''hits@5'' = Some (Num h5)"
      "metrics s ''hits@10'' = Some (Num h10)" "metrics s ''hits@100'' = Some (Num h100)"
      "metrics s ''hits@_cnt'' = Some (Num hc)"
  shows "update_ranking_metrics obs labels s
         = (s\<lparr>has_text_cands := True,
              metrics := (metrics s)
                (''hits@1'' \<mapsto> Num (h1 + (if hit_at 1 cs labels then 1 else 0)),
                 ''hits@5'' \<mapsto> Num (h5 + (if hit_at 5 cs labels then 1 else 0)),
                 ''hits@10'' \<mapsto> Num (h10 + (if hit_at 10 cs labels then 1 else 0)),
                 ''hits@100'' \<mapsto> Num (h100 + (if hit_at 100 cs labels then 1 else 0)),
                 ''hits@_cnt'' \<mapsto> Num (hc + 1))\<rparr>, None)"
proof -
  define cnts where "cnts = count_hits (set (map normalize_answer labels)) cs 0 (\<lambda>k. 0)"
  have p: "0 < cnts K \<longleftrightarrow> hit_at K cs labels" if "K \<in> set eval_pr" for K
    unfolding cnts_def hit_at_def count_hits_pos [OF that] by (simp add: list_ex_iff)
  have p': "(0 < cnts 1) = hit_at 1 cs labels" "(0 < cnts 5) = hit_at 5 cs labels"
    "(0 < cnts 10) = hit_at 10 cs labels" "(0 < cnts 100) = hit_at 100 cs labels"
    by (rule p, simp add: eval_pr_def)+
  have "update_ranking_metrics obs labels s
          = with_lock (seqs [set_has_text_cands,
              for_each eval_pr (\<lambda>k. if cnts k > 0 then iadd (''hits@'' @ str k) 1 else skip),
              iadd ''hits@_cnt'' 1]) s"
    by (simp add: update_ranking_metrics_def tc Let_def cnts_def)
  also note hits_block [OF h, of cnts]
  finally show ?thesis
    unfolding p' .
qed

lemma update_hits_eq:
  assumes tc: "text_candidates obs = Some cs"
    and ret: "\<not> isl (snd (update E obs labels s))"
    and uk: "\<forall>k \<in> set (user_keys obs). k \<notin> hits_keys \<and> k @ ''_cnt'' \<notin> hits_keys"
    and h: "metrics s ''hits@1'' = Some (Num h1)" "metrics s ''hits@5'' = Some (Num h5)"
      "metrics s ''hits@10'' = Some (Num h10)" "metrics s ''hits@100'' = Some (Num h100)"
      "metrics s ''hits@_cnt'' = Some (Num hc)"
    and k: "k \<in> hits_keys"
  shows "metrics (fst (update E obs labels s)) k
         = ((metrics s)
                (''hits@1'' \<mapsto> Num (h1 + (if hit_at 1 cs labels then 1 else 0)),
                 ''hits@5'' \<mapsto> Num (h5 + (if hit_at 5 cs labels then 1 else 0)),
                 ''hits@10'' \<mapsto> Num (h10 + (if hit_at 10 cs labels then 1 else 0)),
                 ''hits@100'' \<mapsto> Num (h100 + (if hit_at 100 cs labels then 1 else 0)),
                 ''hits@_cnt'' \<mapsto> Num (hc + 1))) k"
proof -
  define s1 where "s1 = fst (update_cnt s)"
  define s2 where "s2 = fst (update_text E obs labels s1)"
  define s3 where "s3 = fst (update_ranking_metrics obs labels s2)"
  have k1: "k \<noteq> ''cnt''" and k2: "k \<notin> text_keys"
    using k text_keys_hits_keys by (auto simp: hits_keys_def)
  have keep: "metrics s2 k' = metrics s k'" if "k' \<in> hits_keys" for k'
  proof -
    from that text_keys_hits_keys have "k' \<notin> {''cnt''}" "k' \<notin> text_keys"
      by (auto simp: hits_keys_def)
    with frameD [OF frame_update_cnt, of k' s] frameD [OF frame_update_text, of k' E obs labels s1]
    show ?thesis
      by (simp add: s1_def s2_def)
  qed
  have h2: "metrics s2 ''hits@1'' = Some (Num h1)" "metrics s2 ''hits@5'' = Some (Num h5)"
      "metrics s2 ''hits@10'' = Some (Num h10)" "metrics s2 ''hits@100'' = Some (Num h100)"
      "metrics s2 ''hits@_cnt'' = Some (Num hc)"
    using h by (simp_all add: keep hits_keys_def)
  note r = update_ranking_metrics_eq [OF tc h2, of labels]
  from ret have "snd (update_stmt E obs labels s) = None"
    by (simp add: update_def split: prod.splits option.splits)
  then have a: "snd (update_cnt s) = None"
    and "snd (seqs [update_text E obs labels, update_ranking_metrics obs labels, update_user obs] s1) = None"
    unfolding update_stmt_def seqs.simps s1_def by (auto dest: snd_seq_None)
  then have b: "snd (update_text E obs labels s1) = None"
    unfolding seqs.simps by (auto dest: snd_seq_None)
  have c: "snd (update_ranking_metrics obs labels s2) = None"
    by (simp add: r)
  have "update_stmt E obs labels s = seq (update_user obs) skip s3"
    unfolding update_stmt_def seqs.simps s3_def s2_def s1_def
    using a b c by (simp add: seq_fst_ok s1_def s2_def)
  then have "fst (update E obs labels s) = fst (update_user obs s3)"
    by (simp add: fst_update fst_seq_skip)
  moreover from uk k have "k \<notin> (\<Union>k \<in> set (user_keys obs). {k, k @ ''_cnt''})"
    by auto
  ultimately have "metrics (fst (update E obs labels s)) k = metrics s3 k"
    using frameD [OF frame_update_user_obs, of k obs s3] by simp
  also have "\<dots> = ((metrics s2)
                (''hits@1'' \<mapsto> Num (h1 + (if hit_at 1 cs labels then 1 else 0)),
                 ''hits@5'' \<mapsto> Num (h5 + (if hit_at 5 cs labels then 1 else 0)),
                 ''hits@10'' \<mapsto> Num (h10 + (if hit_at 10 cs labels then 1 else 0)),
                 ''hits@100'' \<mapsto> Num (h100 + (if hit_at 100 cs labels then 1 else 0)),
                 ''hits@_cnt'' \<mapsto> Num (hc + 1))) k"
    by (simp add: s3_def r)
  also have "\<dots> = ((metrics s)
                (''hits@1'' \<mapsto> Num (h1 + (if hit_at 1 cs labels then 1 else 0)),
                 ''hits@5'' \<mapsto> Num (h5 + (if hit_at 5 cs labels then 1 else 0)),
                 ''hits@10'' \<mapsto> Num (h10 + (if hit_at 10 cs labels then 1 else 0)),
                 ''hits@100'' \<mapsto> Num (h100 + (if hit_at 100 cs labels then 1 else 0)),
                 ''hits@_cnt'' \<mapsto> Num (hc + 1))) k"
    using keep [OF k] by simp
  finally show ?thesis .
qed

text \<open>
  C6: an \<^verbatim>\<open>update()\<close> that returns normally, on an observation with a list of candidates
  whose own metrics have no key \<open>k\<close> with \<open>k\<close> or \<open>k_cnt\<close> among the hit accumulators, the hit
  accumulators being numbers. Then for each \<open>K\<close> of 1, 5, 10, 100 the accumulator \<^verbatim>\<open>hits@K\<close>
  is incremented by one exactly when some candidate among the first \<open>K\<close> is, after
  normalisation, a normalised label, and is unchanged otherwise; and \<^verbatim>\<open>hits@_cnt\<close> is
  incremented by one.
\<close>

theorem update_hits:
  assumes "text_candidates obs = Some cs"
    and "\<not> isl (snd (update E obs labels s))"
    and "\<forall>k \<in> set (user_keys obs). k \<notin> hits_keys \<and> k @ ''_cnt'' \<notin> hits_keys"
    and "metrics s ''hits@1'' = Some (Num h1)" and "metrics s ''hits@5'' = Some (Num h5)"
    and "metrics s ''hits@10'' = Some (Num h10)" and "metrics s ''hits@100'' = Some (Num h100)"
    and "metrics s ''hits@_cnt'' = Some (Num hc)"
  shows "metrics (fst (update E obs labels s)) ''hits@1'' = Some (Num (h1 + (if hit_at 1 cs labels then 1 else 0)))
       \<and> metrics (fst (update E obs labels s)) ''hits@5'' = Some (Num (h5 + (if hit_at 5 cs labels then 1 else 0)))
       \<and> metrics (fst (update E obs labels s)) ''hits@10'' = Some (Num (h10 + (if hit_at 10 cs labels then 1 else 0)))
       \<and> metrics (fst (update E obs labels s)) ''hits@100'' = Some (Num (h100 + (if hit_at 100 cs labels then 1 else 0)))
       \<and> metrics (fst (update E obs labels s)) ''hits@_cnt'' = Some (Num (hc + 1))"
proof -
  note e = update_hits_eq [OF assms]
  have "''hits@1'' \<in> hits_keys" "''hits@5'' \<in> hits_keys" "''hits@10'' \<in> hits_keys"
    "''hits@100'' \<in> hits_keys" "''hits@_cnt'' \<in> hits_keys"
    by (simp_all add: hits_keys_def)
  then show ?thesis
    by (simp add: e)
qed

lemma update_hits_example:
  "\<not> isl (snd (update \<lparr>nltkbleu = None, rouge = None\<rparr>
      \<lparr>obs_text = None, text_candidates = Some [''b'', ''a'', ''c''], obs_metrics = None\<rparr> [''a'']
      (init \<lparr>nltkbleu = None, rouge = None\<rparr> Map.empty)))"
  "\<not> hit_at 1 [''b'', ''a'', ''c''] [''a'']"
  "\<not> hit_at (Suc 0) [''b'', ''a'', ''c''] [''a'']"
  "hit_at 5 [''b'', ''a'', ''c''] [''a'']"
  "hit_at 10 [''b'', ''a'', ''c''] [''a'']"
  "hit_at 100 [''b'', ''a'', ''c''] [''a'']"
  by code_simp+

theorem update_hits_witness:
  "metrics (fst (update \<lparr>nltkbleu = None, rouge = None\<rparr>
      \<lparr>obs_text = None, text_candidates = Some [''b'', ''a'', ''c''], obs_metrics = None\<rparr> [''a'']
      (init \<lparr>nltkbleu = None, rouge = None\<rparr> Map.empty))) ''hits@1'' = Some (Num 0)
   \<and> metrics (fst (update \<lparr>nltkbleu = None, rouge = None\<rparr>
      \<lparr>obs_text = None, text_candidates = Some [''b'', ''a'', ''c''], obs_metrics = None\<rparr> [''a'']
      (init \<lparr>nltkbleu = None, rouge = None\<rparr> Map.empty))) ''hits@5'' = Some (Num 1)
   \<and> metrics (fst (update \<lparr>nltkbleu = None, rouge = None\<rparr>
      \<lparr>obs_text = None, text_candidates = Some [''b'', ''a'', ''c''], obs_metrics = None\<rparr> [''a'']
      (init \<lparr>nltkbleu = None, rouge = None\<rparr> Map.empty))) ''hits@_cnt'' = Some (Num 1)"
  using update_hits [where obs = "\<lparr>obs_text = None, text_candidates = Some [''b'', ''a'', ''c''], obs_metrics = None\<rparr>"
      and cs = "[''b'', ''a'', ''c'']" and E = "\<lparr>nltkbleu = None, rouge = None\<rparr>" and labels = "[''a'']"
      and s = "init \<lparr>nltkbleu = None, rouge = None\<rparr> Map.empty",
      OF _ update_hits_example(1) _ init_table(6) init_table(7) init_table(8) init_table(9) init_table(10)]
  by (simp add: update_hits_example user_keys_def)

theorem update_hits_user_metric:
  "(case update \<lparr>nltkbleu = None, rouge = None\<rparr>
           \<lparr>obs_text = None, text_candidates = Some [''cat''], obs_metrics = Some [(''hits@5'', 2)]\<rparr> [''cat'']
           (init \<lparr>nltkbleu = None, rouge = None\<rparr> Map.empty) of
      (s, r) \<Rightarrow> \<not> isl r \<and> metrics s ''hits@5'' = Some (Num 3) \<and> metrics s ''hits@1'' = Some (Num 1))
   \<and> metrics (init \<lparr>nltkbleu = None, rouge = None\<rparr> Map.empty) ''hits@5'' = Some (Num 0)"
  by code_simp

subsection \<open>Updates without a prediction text\<close>

lemma score_keys_mem:
  "''f1'' \<in> score_keys" "''f1_cnt'' \<in> score_keys"
  "''bleu_cnt'' \<in> score_keys" "''rouge-1'' \<in> score_keys" "''rouge-2'' \<in> score_keys"
  "''rouge-l'' \<in> score_keys" "''rouge_cnt'' \<in> score_keys" "''intra-distinct_cnt'' \<in> score_keys"
  by (simp_all add: score_keys_def)

lemma score_keys_loop:
  assumes "i \<in> set [1 ..< 5]"
  shows "''bleu-'' @ str i \<in> score_keys" "''intra-distinct-'' @ str i \<in> score_keys"
    "''inter-distinct-'' @ str i \<in> score_keys"
  using assms unfolding range_1_5 by (auto simp: str_digits score_keys_def)

lemma frame_update_bleu_scores: "frame score_keys (update_bleu E p ls)"
proof (cases "nltkbleu E")
  case None
  then show ?thesis
    by (simp add: update_bleu_def frame_skip)
next
  case (Some a)
  have "frame score_keys (seq (for_each [1 ..< 5] (\<lambda>i. iadd_opt (''bleu-'' @ str i) (bleu E p ls i)))
            (iadd ''bleu_cnt'' 1))"
    by (intro frame_seq frame_for_each frame_iadd_opt frame_iadd score_keys_mem score_keys_loop)
  with Some show ?thesis
    by (simp add: update_bleu_def)
qed

lemma frame_update_rouge_scores: "frame score_keys (update_rouge E p ls)"
proof (cases "rouge E")
  case None
  then show ?thesis
    by (simp add: update_rouge_def frame_skip)
next
  case (Some get_scores)
  have "frame score_keys (eval_then (rouge_scores get_scores p ls) (\<lambda>scores.
            seqs [iadd_opt ''rouge-1'' (scores ! 0),
                  iadd_opt ''rouge-2'' (scores ! 1),
                  iadd_opt ''rouge-l'' (scores ! 2),
                  iadd ''rouge_cnt'' 1]))"
    unfolding seqs.simps
    by (intro frame_eval_then frame_seq frame_skip frame_iadd_opt frame_iadd score_keys_mem)
  with Some show ?thesis
    by (simp add: update_rouge_def)
qed

lemma frame_update_distinct_scores: "frame score_keys (update_distinct p)"
  unfolding update_distinct_def
  by (intro frame_seq frame_for_each frame_iadd frame_iadd_counter score_keys_mem score_keys_loop)

lemma frame_update_scores_fine: "frame score_keys (update_scores E p ls)"
  unfolding update_scores_def seqs.simps
  by (intro frame_eval_then frame_with_lock frame_seq frame_skip frame_iadd score_keys_mem
      frame_update_bleu_scores frame_update_rouge_scores frame_update_distinct_scores)

lemma user_metric_reserved:
  assumes "k \<in> set [''correct'', ''f1'', ''hits@k'', ''bleu'']"
  shows "user_metric (k, v) s = (s, None)"
proof -
  from assms have n: "\<not> k \<notin> set [''correct'', ''f1'', ''hits@k'', ''bleu'']"
    by blast
  show ?thesis
    unfolding user_metric_def prod.case by (rule if_not_P [OF n])
qed

lemma frame_update_user_written: "frame (set (written_keys obs)) (update_user obs)"
proof (cases "obs_metrics obs")
  case None
  then show ?thesis
    by (simp add: update_user_def frame_skip)
next
  case (Some items)
  have "frame (set (written_keys obs)) (for_each items user_metric)"
  proof (rule frame_for_each)
    fix x
    assume x: "x \<in> set items"
    obtain k v where kv: "x = (k, v)"
      by (cases x)
    from x kv Some have k: "k \<in> set (user_keys obs)"
      by (force simp: user_keys_def)
    show "frame (set (written_keys obs)) (user_metric x)"
    proof (cases "k \<in> set [''correct'', ''f1'', ''hits@k'', ''bleu'']")
      case True
      then have "user_metric (k, v) = skip"
        unfolding fun_eq_iff skip_def using user_metric_reserved [of k v] by blast
      then show ?thesis
        by (simp add: kv frame_skip)
    next
      case False
      with k have "{k, k @ ''_cnt''} \<subseteq> set (written_keys obs)"
        by (force simp: written_keys_def)
      with frame_user_metric [of k v] show ?thesis
        unfolding kv by (rule frame_mono)
    qed
  qed
  with Some show ?thesis
    by (simp add: update_user_def)
qed

lemma frame_after_text:
  "frame (hits_keys \<union> set (written_keys obs))
     (seq (update_ranking_metrics obs labels) (seq (update_user obs) skip))"
  by (intro frame_seq frame_skip frame_mono [OF frame_update_ranking_metrics]
      frame_mono [OF frame_update_user_written]) auto

lemma frame_after_correct:
  "frame (score_keys \<union> hits_keys \<union> set (written_keys obs))
     (seq (update_scores E p labels) (seq (update_ranking_metrics obs labels) (seq (update_user obs) skip)))"
  by (intro frame_seq frame_skip frame_mono [OF frame_update_ranking_metrics]
      frame_mono [OF frame_update_user_written] frame_mono [OF frame_update_scores_fine]) auto

lemma update_cnt_eq:
  assumes "metrics s ''cnt'' = Some (Num c)"
  shows "update_cnt s = (s\<lparr>metrics := (metrics s)(''cnt'' \<mapsto> Num (c + 1))\<rparr>, None)"
  by (simp add: update_cnt_def with_lock_def iadd_num [OF assms])

lemma update_correct_eq:
  assumes "metrics s ''correct'' = Some (Num x)" and "metrics s ''correct_cnt'' = Some (Num m)"
  shows "update_correct p ls s
         = (s\<lparr>print_prediction_metrics := True,
              metrics := (metrics s)(''correct'' \<mapsto> Num (x + correct_of (Some p) ls),
                                     ''correct_cnt'' \<mapsto> Num (m + 1))\<rparr>, None)"
proof -
  define s2 where "s2 = s\<lparr>print_prediction_metrics := True\<rparr>"
  define s3 where "s3 = s2\<lparr>metrics := (metrics s2)(''correct'' \<mapsto> Num (x + correct_of (Some p) ls))\<rparr>"
  define s4 where "s4 = s3\<lparr>metrics := (metrics s3)(''correct_cnt'' \<mapsto> Num (m + 1))\<rparr>"
  have a: "set_print_prediction_metrics s = (s2, None)"
    by (simp add: set_print_prediction_metrics_def s2_def)
  have "metrics s2 ''correct'' = Some (Num x)"
    by (simp add: s2_def assms)
  then have b: "iadd ''correct'' (correct_of (Some p) ls) s2 = (s3, None)"
    by (simp add: iadd_num s3_def)
  have "metrics s3 ''correct_cnt'' = Some (Num m)"
    by (simp add: s3_def s2_def assms)
  then have c: "iadd ''correct_cnt'' 1 s3 = (s4, None)"
    by (simp add: iadd_num s4_def)
  have "update_correct p ls s = (s4, None)"
    unfolding update_correct_def with_lock_def seqs.simps
    by (rule seq_chain, rule a, rule seq_chain, rule b, rule seq_chain, rule c, simp add: skip_def)
  then show ?thesis
    by (simp add: s4_def s3_def s2_def)
qed

lemma seq_skip_left: "seq skip g = g"
  by (simp add: fun_eq_iff seq_def skip_def)

lemma seq_seq_ok: "f s = (s1, None) \<Longrightarrow> seq (seq f g) h s = seq g h s1"
  by (simp add: seq_def)

lemma update_counts:
  assumes cnt: "metrics s ''cnt'' = Some (Num n)"
    and co: "metrics s ''correct'' = Some (Num x)"
    and cc: "metrics s ''correct_cnt'' = Some (Num m)"
    and w: "\<forall>k \<in> set (written_keys obs). k \<notin> {''cnt'', ''correct'', ''correct_cnt''}"
  shows "metrics (fst (update E obs labels s)) ''cnt'' = Some (Num (n + 1))"
    and "metrics (fst (update E obs labels s)) ''correct_cnt''
         = Some (Num (m + (if obs_text obs = None then 0 else 1)))"
    and "\<exists>x'. metrics (fst (update E obs labels s)) ''correct'' = Some (Num x')"
proof -
  define s1 where "s1 = s\<lparr>metrics := (metrics s)(''cnt'' \<mapsto> Num (n + 1))\<rparr>"
  have u: "update_cnt s = (s1, None)"
    unfolding s1_def by (rule update_cnt_eq [OF cnt])
  have out: "k \<notin> score_keys \<union> hits_keys \<union> set (written_keys obs)"
    if "k \<in> {''cnt'', ''correct'', ''correct_cnt''}" for k
    using that w by (auto simp: score_keys_def hits_keys_def)
  have out': "k \<notin> hits_keys \<union> set (written_keys obs)"
    if "k \<in> {''cnt'', ''correct'', ''correct_cnt''}" for k
    using out [OF that] by simp
  have "metrics (fst (update E obs labels s)) ''cnt'' = Some (Num (n + 1))
      \<and> metrics (fst (update E obs labels s)) ''correct_cnt''
         = Some (Num (m + (if obs_text obs = None then 0 else 1)))
      \<and> (\<exists>x'. metrics (fst (update E obs labels s)) ''correct'' = Some (Num x'))"
  proof (cases "obs_text obs")
    case None
    have "update_stmt E obs labels s
          = seq (update_ranking_metrics obs labels) (seq (update_user obs) skip) s1"
      unfolding update_stmt_def seqs.simps
      by (rule seq_chain, rule u) (simp add: update_text_def None seq_skip_left)
    then have "metrics (fst (update E obs labels s)) k = metrics s1 k"
      if "k \<in> {''cnt'', ''correct'', ''correct_cnt''}" for k
      using frameD [OF frame_after_text [of obs labels] out' [OF that], of s1] by (simp add: fst_update)
    then show ?thesis
      using None co cc by (simp add: s1_def)
  next
    case (Some p)
    define s2 where "s2 = s1\<lparr>print_prediction_metrics := True,
              metrics := (metrics s1)(''correct'' \<mapsto> Num (x + correct_of (Some p) labels),
                                     ''correct_cnt'' \<mapsto> Num (m + 1))\<rparr>"
    have "metrics s1 ''correct'' = Some (Num x)" "metrics s1 ''correct_cnt'' = Some (Num m)"
      by (simp_all add: s1_def co cc)
    then have c: "update_correct p labels s1 = (s2, None)"
      unfolding s2_def by (rule update_correct_eq)
    have "update_stmt E obs labels s
          = seq (update_scores E p labels)
              (seq (update_ranking_metrics obs labels) (seq (update_user obs) skip)) s2"
      unfolding update_stmt_def seqs.simps
      by (rule seq_chain, rule u)
         (simp add: update_text_def Some seq_seq_ok [where f = "update_correct p labels", OF c])
    then have "metrics (fst (update E obs labels s)) k = metrics s2 k"
      if "k \<in> {''cnt'', ''correct'', ''correct_cnt''}" for k
      using frameD [OF frame_after_correct [of obs E p labels] out [OF that], of s2]
      by (simp add: fst_update)
    then show ?thesis
      using Some by (simp add: s2_def s1_def)
  qed
  then show "metrics (fst (update E obs labels s)) ''cnt'' = Some (Num (n + 1))"
    and "metrics (fst (update E obs labels s)) ''correct_cnt''
         = Some (Num (m + (if obs_text obs = None then 0 else 1)))"
    and "\<exists>x'. metrics (fst (update E obs labels s)) ''correct'' = Some (Num x')"
    by blast+
qed

lemma update_no_text:
  assumes nt: "obs_text obs = None"
    and w: "\<forall>k \<in> set (written_keys obs). k \<notin> insert ''cnt'' text_keys"
    and cnt: "metrics s ''cnt'' = Some (Num c)"
  shows "metrics (fst (update E obs labels s)) ''cnt'' = Some (Num (c + 1))"
    and "\<forall>k \<in> text_keys. metrics (fst (update E obs labels s)) k = metrics s k"
proof -
  define s1 where "s1 = s\<lparr>metrics := (metrics s)(''cnt'' \<mapsto> Num (c + 1))\<rparr>"
  have u: "update_cnt s = (s1, None)"
    unfolding s1_def by (rule update_cnt_eq [OF cnt])
  have "update_stmt E obs labels s
          = seq (update_ranking_metrics obs labels) (seq (update_user obs) skip) s1"
    unfolding update_stmt_def seqs.simps
    by (rule seq_chain, rule u) (simp add: update_text_def nt seq_skip_left)
  then have e: "fst (update E obs labels s)
          = fst (seq (update_ranking_metrics obs labels) (seq (update_user obs) skip) s1)"
    by (simp add: fst_update)
  have out: "k \<notin> hits_keys \<union> set (written_keys obs)" if "k \<in> insert ''cnt'' text_keys" for k
    using that w text_keys_hits_keys by (auto simp: hits_keys_def)
  have keep: "metrics (fst (update E obs labels s)) k = metrics s1 k" if "k \<in> insert ''cnt'' text_keys" for k
    unfolding e by (rule frameD [OF frame_after_text out [OF that]])
  from keep [of "''cnt''"] show "metrics (fst (update E obs labels s)) ''cnt'' = Some (Num (c + 1))"
    by (simp add: s1_def)
  have "''cnt'' \<notin> text_keys"
    by (simp add: text_keys_def)
  then show "\<forall>k \<in> text_keys. metrics (fst (update E obs labels s)) k = metrics s k"
    using keep by (auto simp: s1_def)
qed

lemma run_counts:
  assumes "metrics s ''cnt'' = Some (Num n)"
    and "metrics s ''correct'' = Some (Num x)"
    and "metrics s ''correct_cnt'' = Some (Num m)"
    and "\<forall>c \<in> set calls. case c of
           Update obs labels \<Rightarrow> (\<forall>k \<in> set (written_keys obs). k \<notin> {''cnt'', ''correct'', ''correct_cnt''})
         | Clear \<Rightarrow> False"
  shows "metrics (run E calls s) ''cnt'' = Some (Num (n + of_nat (length calls)))
       \<and> metrics (run E calls s) ''correct_cnt'' = Some (Num (m + of_nat (length (filter has_text calls))))"
  using assms
proof (induction calls arbitrary: s n x m)
  case Nil
  then show ?case
    by (simp add: run_def)
next
  case (Cons c calls)
  from Cons.prems(4) obtain obs labels where c: "c = Update obs labels"
    and w: "\<forall>k \<in> set (written_keys obs). k \<notin> {''cnt'', ''correct'', ''correct_cnt''}"
    by (cases c) simp_all
  from Cons.prems(4) have rest: "\<forall>c \<in> set calls. case c of
           Update obs labels \<Rightarrow> (\<forall>k \<in> set (written_keys obs). k \<notin> {''cnt'', ''correct'', ''correct_cnt''})
         | Clear \<Rightarrow> False"
    by simp
  note st = update_counts [OF Cons.prems(1) Cons.prems(2) Cons.prems(3) w, of E labels]
  from st(3) obtain x' where x': "metrics (step E c s) ''correct'' = Some (Num x')"
    by (auto simp: c)
  have 1: "metrics (step E c s) ''cnt'' = Some (Num (n + 1))"
    using st(1) by (simp add: c)
  have 2: "metrics (step E c s) ''correct_cnt'' = Some (Num (m + (if obs_text obs = None then 0 else 1)))"
    using st(2) by (simp add: c)
  from Cons.IH [OF 1 x' 2 rest] show ?case
    by (auto simp: run_def c has_text_def algebra_simps)
qed

text \<open>
  C9: an \<^verbatim>\<open>update()\<close> whose observation has no prediction text, and whose own metrics write
  neither \<^verbatim>\<open>cnt\<close> nor any of the text accumulators, increments \<^verbatim>\<open>cnt\<close> by one and leaves
  \<^verbatim>\<open>correct\<close>, \<^verbatim>\<open>correct_cnt\<close>, \<^verbatim>\<open>f1\<close>, \<^verbatim>\<open>f1_cnt\<close> and all bleu, rouge and distinct accumulators
  as they were, whether it returns or raises. And on a fresh accumulator, after any
  sequence of \<^verbatim>\<open>update()\<close> calls whose own metrics write none of \<^verbatim>\<open>cnt\<close>, \<^verbatim>\<open>correct\<close>,
  \<^verbatim>\<open>correct_cnt\<close>, the counter \<^verbatim>\<open>cnt\<close> is the number of calls and \<^verbatim>\<open>correct_cnt\<close> is the number
  of calls that had a prediction text.
\<close>

theorem update_without_text:
  "(obs_text obs = None \<and> (\<forall>k \<in> set (written_keys obs). k \<notin> insert ''cnt'' text_keys)
      \<and> metrics s ''cnt'' = Some (Num c)
    \<longrightarrow> metrics (fst (update E obs labels s)) ''cnt'' = Some (Num (c + 1))
        \<and> (\<forall>k \<in> text_keys. metrics (fst (update E obs labels s)) k = metrics s k))
   \<and> ((\<forall>c \<in> set calls. case c of
           Update obs labels \<Rightarrow> (\<forall>k \<in> set (written_keys obs). k \<notin> {''cnt'', ''correct'', ''correct_cnt''})
         | Clear \<Rightarrow> False)
    \<longrightarrow> metrics (run E calls (init E opt)) ''cnt'' = Some (Num (of_nat (length calls)))
        \<and> metrics (run E calls (init E opt)) ''correct_cnt''
            = Some (Num (of_nat (length (filter has_text calls)))))"
proof (intro conjI impI)
  assume a: "obs_text obs = None \<and> (\<forall>k \<in> set (written_keys obs). k \<notin> insert ''cnt'' text_keys)
      \<and> metrics s ''cnt'' = Some (Num c)"
  then have nt: "obs_text obs = None" and w: "\<forall>k \<in> set (written_keys obs). k \<notin> insert ''cnt'' text_keys"
    and cnt: "metrics s ''cnt'' = Some (Num c)"
    by blast+
  show "metrics (fst (update E obs labels s)) ''cnt'' = Some (Num (c + 1))"
    by (rule update_no_text(1) [OF nt w cnt])
  show "\<forall>k \<in> text_keys. metrics (fst (update E obs labels s)) k = metrics s k"
    by (rule update_no_text(2) [OF nt w cnt])
next
  assume a: "\<forall>c \<in> set calls. case c of
           Update obs labels \<Rightarrow> (\<forall>k \<in> set (written_keys obs). k \<notin> {''cnt'', ''correct'', ''correct_cnt''})
         | Clear \<Rightarrow> False"
  from run_counts [OF init_table(1) [of E opt] init_table(2) [of E opt] init_table(3) [of E opt] a, where E = E]
  show "metrics (run E calls (init E opt)) ''cnt'' = Some (Num (of_nat (length calls)))"
    and "metrics (run E calls (init E opt)) ''correct_cnt''
            = Some (Num (of_nat (length (filter has_text calls))))"
    by simp_all
qed

theorem update_without_text_witness:
  "metrics (fst (update \<lparr>nltkbleu = None, rouge = None\<rparr>
       \<lparr>obs_text = None, text_candidates = None, obs_metrics = Some [(''loss'', 1 / 2)]\<rparr> []
       (init \<lparr>nltkbleu = None, rouge = None\<rparr> Map.empty))) ''cnt'' = Some (Num 1)
   \<and> metrics (fst (update \<lparr>nltkbleu = None, rouge = None\<rparr>
       \<lparr>obs_text = None, text_candidates = None, obs_metrics = Some [(''loss'', 1 / 2)]\<rparr> []
       (init \<lparr>nltkbleu = None, rouge = None\<rparr> Map.empty))) ''correct_cnt'' = Some (Num 0)
   \<and> metrics (run \<lparr>nltkbleu = None, rouge = None\<rparr>
        [Update \<lparr>obs_text = Some ''hello'', text_candidates = None, obs_metrics = None\<rparr> [''hello''],
         Update \<lparr>obs_text = None, text_candidates = None, obs_metrics = Some [(''loss'', 1 / 2)]\<rparr> [],
         Update \<lparr>obs_text = Some ''hello'', text_candidates = None, obs_metrics = None\<rparr> [''hello'']]
        (init \<lparr>nltkbleu = None, rouge = None\<rparr> Map.empty)) ''cnt'' = Some (Num 3)
   \<and> metrics (run \<lparr>nltkbleu = None, rouge = None\<rparr>
        [Update \<lparr>obs_text = Some ''hello'', text_candidates = None, obs_metrics = None\<rparr> [''hello''],
         Update \<lparr>obs_text = None, text_candidates = None, obs_metrics = Some [(''loss'', 1 / 2)]\<rparr> [],
         Update \<lparr>obs_text = Some ''hello'', text_candidates = None, obs_metrics = None\<rparr> [''hello'']]
        (init \<lparr>nltkbleu = None, rouge = None\<rparr> Map.empty)) ''correct_cnt'' = Some (Num 2)"
  using update_without_text [where obs = "\<lparr>obs_text = None, text_candidates = None, obs_metrics = Some [(''loss'', 1 / 2)]\<rparr>"
      and s = "init \<lparr>nltkbleu = None, rouge = None\<rparr> Map.empty" and c = 0
      and E = "\<lparr>nltkbleu = None, rouge = None\<rparr>" and labels = "[]" and opt = Map.empty
      and calls = "[Update \<lparr>obs_text = Some ''hello'', text_candidates = None, obs_metrics = None\<rparr> [''hello''],
         Update \<lparr>obs_text = None, text_candidates = None, obs_metrics = Some [(''loss'', 1 / 2)]\<rparr> [],
         Update \<lparr>obs_text = Some ''hello'', text_candidates = None, obs_metrics = None\<rparr> [''hello'']]"]
  by (simp add: init_table written_keys_def user_keys_def text_keys_def has_text_def)

theorem update_without_text_user_metric:
  "(case update \<lparr>nltkbleu = None, rouge = None\<rparr>
           \<lparr>obs_text = None, text_candidates = None, obs_metrics = Some [(''correct_cnt'', 3)]\<rparr> []
           (init \<lparr>nltkbleu = None, rouge = None\<rparr> Map.empty) of
      (s, r) \<Rightarrow> \<not> isl r \<and> metrics s ''correct_cnt'' = Some (Num 3))
   \<and> metrics (init \<lparr>nltkbleu = None, rouge = None\<rparr> Map.empty) ''correct_cnt'' = Some (Num 0)"
  by code_simp

end
